theory Spec2Isabelle
  imports Complex_Main "HOL-Library.Multiset"
begin

section \<open>Conventions of the embedding\<close>

text \<open>
  The program is CircuitPython. Its integers are unbounded and are modelled as \<open>int\<close>.
  Every reading of the monotonic clock is a parameter of the function that reads it, in
  the unit the source uses there (seconds in \<open>code.py\<close>, milliseconds in
  \<open>rotary_encoder.py\<close>), and is modelled as a \<open>real\<close>: the comparisons of the source
  are taken over exact numbers. Every pin level, acceleration sample and random draw is a
  parameter as well. The display, the buzzer, the LED and \<open>time.sleep\<close> change no field of
  the objects modelled here and are left out; a sleep only shows in the next clock reading.
  An exception is a value \<open>Inl e\<close> of the result.
\<close>

datatype error = KeyError | IndexError

section \<open>The quadrature decoder (\<open>rotary_encoder.py\<close>)\<close>

record encoder =
  last_a :: bool
  last_b :: bool
  last_change_time :: real
  position_raw :: int
  position :: int
  delta_accum :: int
  pulses_per_detent :: int
  debounce_ms :: int

text \<open>
  \<open>__init__\<close>: \<open>a\<close> and \<open>b\<close> are the levels of the two pins, \<open>now\<close> the clock in
  milliseconds. The constructor clamps both configuration values.
\<close>

definition encoder_init :: "bool \<Rightarrow> bool \<Rightarrow> real \<Rightarrow> int \<Rightarrow> int \<Rightarrow> encoder" where
  "encoder_init a b now debounce ppd =
     \<lparr> last_a = a, last_b = b, last_change_time = now,
       position_raw = 0, position = 0, delta_accum = 0,
       pulses_per_detent = max 1 ppd, debounce_ms = max 0 debounce \<rparr>"

text \<open>
  \<open>update\<close>: returns whether the detent position changed, and the new state. The field
  \<open>pulses_per_detent\<close> is at least 1 in every state the constructor produces, so the floor
  division of the source never divides by zero.
\<close>

definition update :: "bool \<Rightarrow> bool \<Rightarrow> real \<Rightarrow> encoder \<Rightarrow> bool \<times> encoder" where
  "update a b now e =
     (if a \<noteq> last_a e \<and> real_of_int (debounce_ms e) \<le> now - last_change_time e then
        let raw = (if \<not> a then (if b then position_raw e + 1 else position_raw e - 1)
                   else (if b then position_raw e - 1 else position_raw e + 1));
            e1 = e\<lparr>position_raw := raw, last_change_time := now\<rparr>;
            new_pos = position_raw e1 div pulses_per_detent e1
        in if new_pos \<noteq> position e1 then
             (True, e1\<lparr>position := new_pos,
                       delta_accum := delta_accum e1 + (new_pos - position e1),
                       last_a := a, last_b := b\<rparr>)
           else (False, e1\<lparr>last_a := a, last_b := b\<rparr>)
      else (False, e\<lparr>last_a := a, last_b := b\<rparr>))"

definition get_delta :: "encoder \<Rightarrow> int \<times> encoder" where
  "get_delta e = (delta_accum e, e\<lparr>delta_accum := 0\<rparr>)"

definition reset :: "int option \<Rightarrow> encoder \<Rightarrow> encoder" where
  "reset to_detent e =
     (case to_detent of
        None \<Rightarrow> e\<lparr>position_raw := 0, position := 0, delta_accum := 0\<rparr>
      | Some d \<Rightarrow> e\<lparr>position := d, position_raw := d * pulses_per_detent e,
                    delta_accum := 0\<rparr>)"

text \<open>
  A caller's view of the decoder: a sequence of operations. Beside the decoder the run
  keeps two numbers that the source does not store: the sum of the values \<open>get_delta\<close>
  has returned, and the detent position the decoder started from, both counted from
  construction or from the last \<open>reset\<close>.
\<close>

datatype enc_op = Update bool bool real | GetDelta | Reset "int option"

fun enc_step :: "enc_op \<Rightarrow> encoder \<times> int \<times> int \<Rightarrow> encoder \<times> int \<times> int" where
  "enc_step (Update a b now) (e, got, origin) = (snd (update a b now e), got, origin)"
| "enc_step GetDelta (e, got, origin) = (snd (get_delta e), got + fst (get_delta e), origin)"
| "enc_step (Reset d) (e, got, origin) = (reset d e, 0, position (reset d e))"

definition enc_run :: "enc_op list \<Rightarrow> encoder \<Rightarrow> encoder \<times> int \<times> int" where
  "enc_run ops e = fold enc_step ops (e, 0, position e)"

section \<open>The game (\<open>code.py\<close>)\<close>

datatype gstate = MENU | PLAY | LV10 | WIN | OVER

record difficulty =
  c_n :: string
  c_hp :: int
  c_t :: int
  c_h10 :: int
  c_t10 :: int

text \<open>
  The two tables and the two shake constants are attributes that \<open>__init__\<close> sets
  once and that nothing assigns again, so they are constants here. A key that is not in
  a table raises KeyError.
\<close>

definition cfg :: "int \<rightharpoonup> difficulty" where
  "cfg = [0 \<mapsto> \<lparr>c_n = ''EASY'', c_hp = 6, c_t = 60, c_h10 = 2, c_t10 = 30\<rparr>,
          1 \<mapsto> \<lparr>c_n = ''MED'', c_hp = 4, c_t = 30, c_h10 = 2, c_t10 = 15\<rparr>,
          2 \<mapsto> \<lparr>c_n = ''HARD'', c_hp = 2, c_t = 15, c_h10 = 1, c_t10 = 15\<rparr>]"

definition lvl :: "int \<rightharpoonup> int \<times> int \<times> int \<times> int \<times> int" where
  "lvl = [1 \<mapsto> (2, 2, 2, 1, 1), 2 \<mapsto> (2, 3, 3, 2, 2), 3 \<mapsto> (2, 3, 3, 2, 2),
          4 \<mapsto> (3, 3, 4, 3, 2), 5 \<mapsto> (3, 3, 4, 3, 3), 6 \<mapsto> (3, 4, 5, 4, 3),
          7 \<mapsto> (3, 4, 5, 5, 3), 8 \<mapsto> (4, 4, 6, 5, 4), 9 \<mapsto> (4, 4, 6, 6, 4)]"

definition shake_threshold :: real where
  "shake_threshold = 2.0"

definition shake_duration :: real where
  "shake_duration = 3.0"

record game =
  enc :: encoder
  ebl :: bool
  bl :: bool
  lbt :: real
  st :: gstate
  df :: int
  lv :: int
  hp :: int
  sc :: int
  shake_event_available :: bool
  bomb_disarm_active :: bool
  shake_start_time :: real
  last_tick_time :: real
  grd :: "char list list"
  rev_f :: "bool list list"
  pos :: "int \<times> int"
  fnd :: int
  stm :: real
  tlm :: int
  fch :: int
  fhp :: int

text \<open>
  \<open>Game.__init__\<close>: the decoder is built with a debounce of 1 ms and 2 pulses per detent.
\<close>

definition game_init :: "bool \<Rightarrow> bool \<Rightarrow> real \<Rightarrow> game" where
  "game_init a b now =
     \<lparr> enc = encoder_init a b now 1 2, ebl = True, bl = True, lbt = 0, st = MENU,
       df = 0, lv = 1, hp = 6, sc = 0,
       shake_event_available = False, bomb_disarm_active = False,
       shake_start_time = 0, last_tick_time = 0,
       grd = [], rev_f = [], pos = (0, 0), fnd = 0, stm = 0, tlm = 60,
       fch = 0, fhp = 2 \<rparr>"

subsection \<open>Inputs\<close>

text \<open>
  \<open>check_shake\<close>: the argument is the acceleration sample, \<open>None\<close> when reading the
  sensor raised (the source swallows every exception there).
\<close>

definition check_shake :: "(real \<times> real \<times> real) option \<Rightarrow> bool" where
  "check_shake sample =
     (case sample of
        None \<Rightarrow> False
      | Some (x, y, z) \<Rightarrow> 9.8 + shake_threshold < sqrt (x\<^sup>2 + y\<^sup>2 + z\<^sup>2))"

text \<open>
  \<open>cbtn\<close>: \<open>now\<close> is the clock in seconds, \<open>e\<close> and \<open>b\<close> the levels of the encoder
  button and of the separate button (low, \<open>False\<close>, when pressed).
\<close>

definition cbtn :: "real \<Rightarrow> bool \<Rightarrow> bool \<Rightarrow> game \<Rightarrow> bool \<times> game" where
  "cbtn now e b g =
     (if now - lbt g < 0.2 then (False, g)
      else
        let pr = ((ebl g \<and> \<not> e) \<or> (bl g \<and> \<not> b));
            g1 = g\<lparr>ebl := e, bl := b\<rparr>
        in if pr then (True, g1\<lparr>lbt := now\<rparr>) else (False, g1))"

text \<open>A run of polls, one per entry \<open>(now, e, b)\<close>, with the answer of each.\<close>

fun polls :: "(real \<times> bool \<times> bool) list \<Rightarrow> game \<Rightarrow> bool list \<times> game" where
  "polls [] g = ([], g)"
| "polls ((now, e, b) # ps) g =
     (let (r, g1) = cbtn now e b g; (rs, g2) = polls ps g1 in (r # rs, g2))"

text \<open>\<open>renc\<close>: one decoder update, then the sign of the pending delta.\<close>

definition renc :: "bool \<Rightarrow> bool \<Rightarrow> real \<Rightarrow> game \<Rightarrow> int \<times> game" where
  "renc a b now g =
     (let e1 = snd (update a b now (enc g));
          (d, e2) = get_delta e1;
          g1 = g\<lparr>enc := e2\<rparr>
      in if 0 < d then (1, g1) else if d < 0 then (-1, g1) else (0, g1))"

subsection \<open>Python lists\<close>

text \<open>
  Indexing a list raises IndexError out of range; a negative index counts from the end.
  \<open>range(a, b)\<close> is the list of the integers from \<open>a\<close> up to \<open>b - 1\<close>, and
  \<open>int(x)\<close> truncates towards zero.
\<close>

definition py_get :: "'a list \<Rightarrow> int \<Rightarrow> error + 'a" where
  "py_get xs i =
     (if 0 \<le> i \<and> i < int (length xs) then Inr (xs ! nat i)
      else if i < 0 \<and> - int (length xs) \<le> i then Inr (xs ! nat (int (length xs) + i))
      else Inl IndexError)"

definition py_set :: "'a list \<Rightarrow> int \<Rightarrow> 'a \<Rightarrow> error + 'a list" where
  "py_set xs i v =
     (if 0 \<le> i \<and> i < int (length xs) then Inr (xs[nat i := v])
      else if i < 0 \<and> - int (length xs) \<le> i then Inr (xs[nat (int (length xs) + i) := v])
      else Inl IndexError)"

definition get2 :: "'a list list \<Rightarrow> int \<Rightarrow> int \<Rightarrow> error + 'a" where
  "get2 m r c = (case py_get m r of Inl e \<Rightarrow> Inl e | Inr row \<Rightarrow> py_get row c)"

text \<open>
  \<open>m[r][c] = v\<close>: the rows of both grids are separate lists (each is built by its own
  evaluation of \<open>[x] * co\<close>), so the store changes one row only.
\<close>

definition set2 :: "'a list list \<Rightarrow> int \<Rightarrow> int \<Rightarrow> 'a \<Rightarrow> error + 'a list list" where
  "set2 m r c v =
     (case py_get m r of
        Inl e \<Rightarrow> Inl e
      | Inr row \<Rightarrow> (case py_set row c v of
                     Inl e \<Rightarrow> Inl e
                   | Inr row1 \<Rightarrow> py_set m r row1))"

definition py_range :: "int \<Rightarrow> int \<Rightarrow> int list" where
  "py_range a b = [a..b - 1]"

definition py_int :: "real \<Rightarrow> int" where
  "py_int x = (if 0 \<le> x then \<lfloor>x\<rfloor> else \<lceil>x\<rceil>)"

subsection \<open>Level generation\<close>

text \<open>
  \<open>shuf\<close>: \<open>rnd i\<close> is the value \<open>random.randint(0, i)\<close> returns in the iteration with
  index \<open>i\<close>; the library guarantees \<open>rnd i \<le> i\<close>, which keeps both indices of the swap in
  range. The loop runs \<open>i\<close> from \<open>len(l) - 1\<close> down to \<open>1\<close>; the tuple assignment stores
  the old \<open>l[j]\<close> at \<open>i\<close> first and the old \<open>l[i]\<close> at \<open>j\<close> second.
\<close>

primrec shuf_loop :: "(nat \<Rightarrow> nat) \<Rightarrow> nat \<Rightarrow> 'a list \<Rightarrow> 'a list" where
  "shuf_loop rnd 0 l = l"
| "shuf_loop rnd (Suc k) l =
     shuf_loop rnd k (l[Suc k := l ! rnd (Suc k), rnd (Suc k) := l ! Suc k])"

definition shuf :: "(nat \<Rightarrow> nat) \<Rightarrow> 'a list \<Rightarrow> 'a list" where
  "shuf rnd l = shuf_loop rnd (length l - 1) l"

text \<open>The two placement loops of \<open>ilvl\<close>: \<open>grd[ps[i][0]][ps[i][1]] = ch\<close> for each \<open>i\<close>.\<close>

fun place :: "char \<Rightarrow> (int \<times> int) list \<Rightarrow> int list \<Rightarrow> char list list \<Rightarrow> error + char list list" where
  "place ch ps [] g = Inr g"
| "place ch ps (i # is) g =
     (case py_get ps i of
        Inl e \<Rightarrow> Inl e
      | Inr (r, c) \<Rightarrow> (case set2 g r c ch of
                        Inl e \<Rightarrow> Inl e
                      | Inr g1 \<Rightarrow> place ch ps is g1))"

text \<open>
  The part of \<open>ilvl\<close> that builds the grid, for a level configuration given as arguments:
  an empty grid, the shuffled coordinates, treasures at the first \<open>tr\<close> of them and bombs
  at the next \<open>bm\<close>.
\<close>

definition ilvl_grid :: "(nat \<Rightarrow> nat) \<Rightarrow> int \<Rightarrow> int \<Rightarrow> int \<Rightarrow> int \<Rightarrow> error + char list list" where
  "ilvl_grid rnd r co tr bm =
     (let g0 = replicate (nat r) (replicate (nat co) CHR '' '');
          ps = shuf rnd (List.product (py_range 0 r) (py_range 0 co))
      in case place CHR ''T'' ps (py_range 0 tr) g0 of
           Inl e \<Rightarrow> Inl e
         | Inr g1 \<Rightarrow> place CHR ''B'' ps (py_range tr (tr + bm)) g1)"

text \<open>\<open>ilvl\<close>: \<open>now\<close> is the clock reading stored as the start of the level.\<close>

definition ilvl :: "(nat \<Rightarrow> nat) \<Rightarrow> real \<Rightarrow> game \<Rightarrow> error + game" where
  "ilvl rnd now g =
     (case cfg (df g) of
        None \<Rightarrow> Inl KeyError
      | Some c \<Rightarrow>
          let g1 = g\<lparr>hp := c_hp c, tlm := c_t c, shake_event_available := (df g = 0)\<rparr>
          in case lvl (lv g1) of
               None \<Rightarrow> Inl KeyError
             | Some (r, co, tr, bm, nd) \<Rightarrow>
                 (case ilvl_grid rnd r co tr bm of
                    Inl e \<Rightarrow> Inl e
                  | Inr grid \<Rightarrow>
                      Inr (g1\<lparr>grd := grid,
                              rev_f := replicate (nat r) (replicate (nat co) False),
                              pos := (0, 0), fnd := 0, stm := now,
                              bomb_disarm_active := False\<rparr>)))"

text \<open>\<open>start\<close>: the session fields of a new game, from the selected difficulty.\<close>

definition start :: "game \<Rightarrow> error + game" where
  "start g =
     (case cfg (df g) of
        None \<Rightarrow> Inl KeyError
      | Some c \<Rightarrow> Inr (g\<lparr>hp := c_hp c, tlm := c_t c, lv := 1, sc := 0, st := PLAY\<rparr>))"

subsection \<open>Cursor and digging\<close>

definition move :: "int \<Rightarrow> game \<Rightarrow> error + game" where
  "move d g =
     (case py_get (grd g) 0 of
        Inl e \<Rightarrow> Inl e
      | Inr row0 \<Rightarrow>
          let rows = int (length (grd g)); cols = int (length row0); (r, c) = pos g
          in if 0 < d then
               (if cols \<le> c + 1 then Inr (g\<lparr>pos := ((r + 1) mod rows, 0)\<rparr>)
                else Inr (g\<lparr>pos := (r, c + 1)\<rparr>))
             else
               (if c - 1 < 0 then Inr (g\<lparr>pos := ((r - 1) mod rows, cols - 1)\<rparr>)
                else Inr (g\<lparr>pos := (r, c - 1)\<rparr>)))"

text \<open>A run of cursor moves, one call of \<open>move\<close> per direction, stopping at an exception.\<close>

fun moves :: "int list \<Rightarrow> game \<Rightarrow> error + game" where
  "moves [] g = Inr g"
| "moves (d # ds) g = (case move d g of Inl e \<Rightarrow> Inl e | Inr g1 \<Rightarrow> moves ds g1)"

text \<open>
  \<open>dig\<close>: \<open>t1\<close> and \<open>t2\<close> are the two clock readings taken when a disarm starts.
\<close>

definition dig :: "real \<Rightarrow> real \<Rightarrow> game \<Rightarrow> error + game" where
  "dig t1 t2 g =
     (let (r, c) = pos g
      in case get2 (rev_f g) r c of
           Inl e \<Rightarrow> Inl e
         | Inr revealed \<Rightarrow>
             if revealed then Inr g
             else
               (case set2 (rev_f g) r c True of
                  Inl e \<Rightarrow> Inl e
                | Inr rv \<Rightarrow>
                    let g1 = g\<lparr>rev_f := rv\<rparr>
                    in case get2 (grd g1) r c of
                         Inl e \<Rightarrow> Inl e
                       | Inr ch \<Rightarrow>
                           if ch = CHR ''T'' then
                             Inr (g1\<lparr>fnd := fnd g1 + 1, sc := sc g1 + 50\<rparr>)
                           else if ch = CHR ''B'' then
                             (if shake_event_available g1 then
                                Inr (g1\<lparr>bomb_disarm_active := True,
                                        shake_start_time := t1,
                                        last_tick_time := t2,
                                        shake_event_available := False\<rparr>)
                              else Inr (g1\<lparr>hp := hp g1 - 1\<rparr>))
                           else Inr g1))"

subsection \<open>The control loops\<close>

text \<open>
  What one iteration of a control loop reads from outside: the clock at the top of the
  iteration, the acceleration sample, the encoder pins with the decoder's clock
  (milliseconds), the two buttons with the clock of the poll, the two clock readings of a
  starting disarm, the clock and the random draws of a level initialisation, and, for the
  final level, the clock and the draw of a new attempt.
\<close>

record inputs =
  i_now :: real
  i_accel :: "(real \<times> real \<times> real) option"
  i_a :: bool
  i_b :: bool
  i_enc_ms :: real
  i_ebtn :: bool
  i_btn :: bool
  i_btn_now :: real
  i_dig_t1 :: real
  i_dig_t2 :: real
  i_ilvl_now :: real
  i_rnd :: "nat \<Rightarrow> nat"
  i_retry_now :: real
  i_cor :: int

datatype ctl = Next | Break

text \<open>The local variables of \<open>play\<close>: last draw time, last encoder time, last warning.\<close>

record plocals =
  p_ld :: real
  p_le :: real
  p_lw :: int

text \<open>
  \<open>play\<close> before its loop: the level is initialised, then the locals are set; \<open>t\<close> is
  the clock reading stored in \<open>ld\<close>.
\<close>

definition play_enter :: "(nat \<Rightarrow> nat) \<Rightarrow> real \<Rightarrow> real \<Rightarrow> game \<Rightarrow> error + plocals \<times> game" where
  "play_enter rnd now t g =
     (case ilvl rnd now g of
        Inl e \<Rightarrow> Inl e
      | Inr g1 \<Rightarrow> Inr (\<lparr>p_ld = t, p_le = 0, p_lw = -1\<rparr>, g1))"

text \<open>
  One iteration of the loop of \<open>play\<close>. \<open>Next\<close> stands for reaching the loop test again
  (by \<open>continue\<close> or by falling through), \<open>Break\<close> for \<open>break\<close>.
\<close>

definition play_step :: "inputs \<Rightarrow> plocals \<Rightarrow> game \<Rightarrow> error + ctl \<times> plocals \<times> game" where
  "play_step i l g =
     (if bomb_disarm_active g then
        let elapsed = i_now i - shake_start_time g;
            g1 = (if 0.5 < i_now i - last_tick_time g then g\<lparr>last_tick_time := i_now i\<rparr>
                  else g)
        in if shake_duration \<le> elapsed then
             let g2 = g1\<lparr>bomb_disarm_active := False, hp := hp g1 - 1\<rparr>
             in if hp g2 \<le> 0 then Inr (Next, l, g2\<lparr>st := OVER\<rparr>)
                else Inr (Next, l\<lparr>p_ld := i_now i\<rparr>, g2)
           else if check_shake (i_accel i) then
             Inr (Next, l\<lparr>p_ld := i_now i\<rparr>,
                  g1\<lparr>bomb_disarm_active := False, sc := sc g1 + 100\<rparr>)
           else Inr (Next, l, g1)
      else
        let el = py_int (i_now i - stm g);
            rm = max 0 (tlm g - el);
            l1 = (if rm \<le> 5 \<and> 0 < rm \<and> rm \<noteq> p_lw l then l\<lparr>p_lw := rm\<rparr> else l)
        in if rm \<le> 0 then
             let g1 = g\<lparr>hp := hp g - 1\<rparr>
             in if hp g1 \<le> 0 then Inr (Next, l1, g1\<lparr>st := OVER\<rparr>)
                else (case ilvl (i_rnd i) (i_ilvl_now i) g1 of
                        Inl e \<Rightarrow> Inl e
                      | Inr g2 \<Rightarrow> Inr (Next, l1\<lparr>p_ld := i_now i\<rparr>, g2))
           else
             let (d, g1) = renc (i_a i) (i_b i) (i_enc_ms i) g
             in case (if d \<noteq> 0 \<and> 0.08 < i_now i - p_le l1
                      then (case move d g1 of
                              Inl e \<Rightarrow> Inl e
                            | Inr g2 \<Rightarrow> Inr (l1\<lparr>p_ld := i_now i, p_le := i_now i\<rparr>, g2))
                      else Inr (l1, g1)) of
                  Inl e \<Rightarrow> Inl e
                | Inr (l2, g2) \<Rightarrow>
                    let l3 = (if 0.5 < i_now i - p_ld l2 then l2\<lparr>p_ld := i_now i\<rparr> else l2);
                        (pr, g3) = cbtn (i_btn_now i) (i_ebtn i) (i_btn i) g2
                    in case (if pr then dig (i_dig_t1 i) (i_dig_t2 i) g3 else Inr g3) of
                         Inl e \<Rightarrow> Inl e
                       | Inr g4 \<Rightarrow>
                           if pr \<and> hp g4 \<le> 0 then Inr (Break, l3, g4\<lparr>st := OVER\<rparr>)
                           else
                             (case lvl (lv g4) of
                                None \<Rightarrow> Inl KeyError
                              | Some (r, co, tr, bm, nd) \<Rightarrow>
                                  if nd \<le> fnd g4 then
                                    let g5 = g4\<lparr>sc := sc g4 + (100 + rm * 2), lv := lv g4 + 1\<rparr>
                                    in Inr (Break, l3,
                                            if 9 < lv g5 then g5\<lparr>st := LV10\<rparr> else g5)
                                  else Inr (Next, l3, g4)))"

text \<open>
  The loop of \<open>play\<close> over the inputs of its iterations: \<open>None\<close> when the inputs end
  while the loop is still running.
\<close>

fun play_loop :: "inputs list \<Rightarrow> plocals \<Rightarrow> game \<Rightarrow> error + game option" where
  "play_loop [] l g = (if st g = PLAY then Inr None else Inr (Some g))"
| "play_loop (i # is) l g =
     (if st g \<noteq> PLAY then Inr (Some g)
      else case play_step i l g of
             Inl e \<Rightarrow> Inl e
           | Inr (Break, l1, g1) \<Rightarrow> Inr (Some g1)
           | Inr (Next, l1, g1) \<Rightarrow> play_loop is l1 g1)"

text \<open>
  The local variables of \<open>lv10\<close>: time limit, redraw flag, last encoder time, last
  displayed second, correct answer.
\<close>

record flocals =
  f_tl :: int
  f_rd :: bool
  f_le :: real
  f_ls :: int
  f_cor :: int

text \<open>
  \<open>lv10\<close> before its loop: \<open>now\<close> is the clock reading stored as the start of the
  countdown, \<open>cor\<close> the first draw of \<open>random.randint(0, 1)\<close>.
\<close>

definition lv10_enter :: "real \<Rightarrow> int \<Rightarrow> game \<Rightarrow> error + flocals \<times> game" where
  "lv10_enter now cor g =
     (case cfg (df g) of
        None \<Rightarrow> Inl KeyError
      | Some c \<Rightarrow>
          Inr (\<lparr>f_tl = c_t10 c, f_rd = True, f_le = 0, f_ls = -1, f_cor = cor\<rparr>,
               g\<lparr>fhp := c_h10 c, fch := 0, stm := now\<rparr>))"

text \<open>One iteration of the loop of \<open>lv10\<close>.\<close>

definition lv10_step :: "inputs \<Rightarrow> flocals \<Rightarrow> game \<Rightarrow> ctl \<times> flocals \<times> game" where
  "lv10_step i l g =
     (let el = py_int (i_now i - stm g);
          rm = max 0 (f_tl l - el)
      in if rm = 0 then (Break, l, g\<lparr>st := OVER\<rparr>)
         else
           let (d, g1) = renc (i_a i) (i_b i) (i_enc_ms i) g;
               (l1, g2) = (if d \<noteq> 0 \<and> 0.15 < i_now i - f_le l
                           then (l\<lparr>f_rd := True, f_le := i_now i\<rparr>, g1\<lparr>fch := 1 - fch g1\<rparr>)
                           else (l, g1));
               l2 = (if f_rd l1 \<or> el \<noteq> f_ls l1 then l1\<lparr>f_rd := False, f_ls := el\<rparr> else l1);
               (pr, g3) = cbtn (i_btn_now i) (i_ebtn i) (i_btn i) g2
           in if pr then
                (if fch g3 = f_cor l2 then (Break, l2, g3\<lparr>sc := sc g3 + 500, st := WIN\<rparr>)
                 else
                   let g4 = g3\<lparr>fhp := fhp g3 - 1\<rparr>
                   in if fhp g4 \<le> 0 then (Break, l2, g4\<lparr>st := OVER\<rparr>)
                      else (Next, l2\<lparr>f_cor := i_cor i, f_rd := True\<rparr>,
                            g4\<lparr>stm := i_retry_now i\<rparr>))
              else (Next, l2, g3))"

text \<open>The whole-second countdown the loop of \<open>lv10\<close> computes at clock reading \<open>now\<close>.\<close>

definition lv10_remaining :: "real \<Rightarrow> flocals \<Rightarrow> game \<Rightarrow> int" where
  "lv10_remaining now l g = max 0 (f_tl l - py_int (now - stm g))"

subsection \<open>Predicates used in the statements\<close>

text \<open>
  The invariant of a decoder run: the configured detent size is positive, the detent
  position is the floor quotient of the raw count, and the values already read plus the
  pending delta account for the whole change of position.
\<close>

definition enc_ok :: "encoder \<times> int \<times> int \<Rightarrow> bool" where
  "enc_ok s =
     (case s of (e, got, origin) \<Rightarrow>
        1 \<le> pulses_per_detent e \<and>
        position e = position_raw e div pulses_per_detent e \<and>
        got + delta_accum e = position e - origin)"


text \<open>
  The shuffle in the words of the design: for \<open>i\<close> from the last index down to 1, swap
  element \<open>i\<close> with the element at the drawn index.
\<close>

definition swap :: "nat \<Rightarrow> nat \<Rightarrow> 'a list \<Rightarrow> 'a list" where
  "swap i j l = l[i := l ! j, j := l ! i]"

definition fisher_yates :: "(nat \<Rightarrow> nat) \<Rightarrow> 'a list \<Rightarrow> 'a list" where
  "fisher_yates rnd l = fold (\<lambda>i l. swap i (rnd i) l) (rev [1..<length l]) l"

text \<open>
  The coordinates of a grid of \<open>r\<close> rows and \<open>co\<close> columns in the order in which that
  loop leaves them.
\<close>

definition shuffled :: "(nat \<Rightarrow> nat) \<Rightarrow> int \<Rightarrow> int \<Rightarrow> (int \<times> int) list" where
  "shuffled rnd r co = fisher_yates rnd (List.product (py_range 0 r) (py_range 0 co))"

text \<open>The grid of \<open>R\<close> rows and \<open>C\<close> columns whose cell at \<open>(r, c)\<close> is \<open>f (r, c)\<close>.\<close>

definition grid_of :: "nat \<Rightarrow> nat \<Rightarrow> (int \<times> int \<Rightarrow> 'a) \<Rightarrow> 'a list list" where
  "grid_of R C f = map (\<lambda>i. map (\<lambda>j. f (int i, int j)) [0..<C]) [0..<R]"

text \<open>The cell with index \<open>k\<close> in row-major order, in a grid of \<open>C\<close> columns.\<close>

definition cell_at :: "nat \<Rightarrow> nat \<Rightarrow> int \<times> int" where
  "cell_at C k = (int (k div C), int (k mod C))"

text \<open>
  A game in progress used in the examples: easy difficulty, level 1, the grid the draws
  1, 1, 0 give, the bomb cell already revealed, the cursor on it.
\<close>

definition sample_game :: game where
  "sample_game =
     (game_init True True 0)
       \<lparr>st := PLAY,
        grd := [[CHR ''T'', CHR '' ''], [CHR ''T'', CHR ''B'']],
        rev_f := [[False, False], [False, True]],
        pos := (1, 1), stm := 0, tlm := 60\<rparr>"

text \<open>
  The inputs of an iteration at clock reading \<open>t\<close> in which nothing is pressed or turned
  and the device is at rest.
\<close>

definition quiet_inputs :: "real \<Rightarrow> inputs" where
  "quiet_inputs t =
     \<lparr>i_now = t, i_accel = Some (0, 0, 9.8), i_a = True, i_b = True, i_enc_ms = 1000 * t,
      i_ebtn = True, i_btn = True, i_btn_now = t, i_dig_t1 = t, i_dig_t2 = t,
      i_ilvl_now = t, i_rnd = (\<lambda>i. i div 2), i_retry_now = t, i_cor = 0\<rparr>"

text \<open>The example game with a disarm running since clock reading 10.\<close>

definition disarm_game :: game where
  "disarm_game =
     sample_game\<lparr>bomb_disarm_active := True, shake_start_time := 10, last_tick_time := 10\<rparr>"

text \<open>
  The example game in the final level, with the inputs of an iteration at clock reading
  105 in which the separate button is pressed, and the locals of the loop with the
  second chest as the correct answer.
\<close>

definition final_game :: game where
  "final_game = sample_game\<lparr>st := LV10, lv := 10, fhp := 2, fch := 0, stm := 100\<rparr>"

definition final_inputs :: inputs where
  "final_inputs = (quiet_inputs 105)\<lparr>i_btn := False, i_retry_now := 108, i_cor := 0\<rparr>"

definition final_locals :: flocals where
  "final_locals = \<lparr>f_tl = 30, f_rd = False, f_le = 0, f_ls = 4, f_cor = 1\<rparr>"

section \<open>Properties of the decoder\<close>

lemma enc_ok_step: "enc_ok s \<Longrightarrow> enc_ok (enc_step x s)"
proof -
  obtain e got origin where s: "s = (e, got, origin)" by (cases s)
  assume "enc_ok s"
  then show ?thesis unfolding s
    by (cases x)
      (auto simp: enc_ok_def update_def get_delta_def reset_def Let_def split: option.splits)
qed

lemma enc_ok_fold: "enc_ok s \<Longrightarrow> enc_ok (fold enc_step ops s)"
  by (induction ops arbitrary: s) (simp_all add: enc_ok_step)

lemma enc_ok_init:
  "enc_ok (encoder_init a b now debounce ppd, 0, position (encoder_init a b now debounce ppd))"
  by (simp add: enc_ok_def encoder_init_def)

lemma enc_step_GetDelta_pending: "delta_accum (fst (enc_step GetDelta s)) = 0"
  by (cases s) (simp add: get_delta_def)

text \<open>
  Claim C6. After any sequence of \<open>update\<close>, \<open>get_delta\<close> and \<open>reset\<close> on a freshly
  constructed decoder (the constructor makes the detent size at least 1 whatever it is
  given), the detent position is the floor of the raw pulse count divided by the detent
  size. The values returned by \<open>get_delta\<close> since construction or the last reset, plus the
  delta still pending, add up to the change of the detent position since then; right
  after a \<open>get_delta\<close> nothing is pending, so the returned values alone add up to it.
\<close>

theorem encoder_invariant:
  "enc_run ops (encoder_init a b now debounce ppd) = (e, got, origin) \<Longrightarrow>
     position e = position_raw e div pulses_per_detent e \<and>
     got + delta_accum e = position e - origin \<and>
     (ops \<noteq> [] \<and> last ops = GetDelta \<longrightarrow> got = position e - origin)"
proof -
  assume run: "enc_run ops (encoder_init a b now debounce ppd) = (e, got, origin)"
  let ?s0 = "(encoder_init a b now debounce ppd, 0::int,
              position (encoder_init a b now debounce ppd))"
  have ok: "enc_ok (e, got, origin)"
    using enc_ok_fold [OF enc_ok_init, of ops a b now debounce ppd] run
    by (simp add: enc_run_def)
  have pend: "delta_accum e = 0" if "ops \<noteq> []" "last ops = GetDelta"
  proof -
    from that obtain xs where "ops = xs @ [GetDelta]"
      by (metis append_butlast_last_id)
    then have "(e, got, origin) = enc_step GetDelta (fold enc_step xs ?s0)"
      using run by (simp add: enc_run_def)
    then show ?thesis
      using enc_step_GetDelta_pending [of "fold enc_step xs ?s0"] by (metis fst_conv)
  qed
  from ok pend show ?thesis by (auto simp: enc_ok_def)
qed

text \<open>
  A run with two pulses in the same direction, a read, a reset to detent 5, one pulse
  back and a second read: the decoder ends at raw count 9, detent 4, and the read after
  the reset returned -1.
\<close>

theorem encoder_invariant_witness:
  "enc_run [Update False True 5, Update True False 10, GetDelta, Reset (Some 5),
            Update False False 15, GetDelta] (encoder_init True True 0 1 2)
     = (\<lparr>last_a = False, last_b = False, last_change_time = 15, position_raw = 9,
         position = 4, delta_accum = 0, pulses_per_detent = 2, debounce_ms = 1\<rparr>, -1, 5)
   \<and> (4::int) = 9 div 2 \<and> (-1::int) + 0 = 4 - 5"
  using encoder_invariant [of "[Update False True 5, Update True False 10, GetDelta,
      Reset (Some 5), Update False False 15, GetDelta]" True True 0 1 2]
  by (simp add: enc_run_def update_def get_delta_def reset_def encoder_init_def)

section \<open>Properties of the button poll\<close>




lemma polls_length: "length (fst (polls ps g)) = length ps"
  by (induction ps arbitrary: g) (auto simp: split_beta Let_def)


text \<open>
  Claim C3, as stated, fails. A poll less than 200 ms after the last accepted press
  returns before it samples the buttons, so it stores no level: at 100 ms after an
  accepted press, with the encoder button sampled low, the stored level of the encoder
  button is still high after the call.
\<close>

theorem cbtn_window_counterexample:
  "\<not> (\<forall>now e b g. now - lbt g < 0.2 \<longrightarrow>
         \<not> fst (cbtn now e b g) \<and> ebl (snd (cbtn now e b g)) = e \<and> bl (snd (cbtn now e b g)) = b)"
proof
  assume "\<forall>now e b g. now - lbt g < 0.2 \<longrightarrow>
         \<not> fst (cbtn now e b g) \<and> ebl (snd (cbtn now e b g)) = e \<and> bl (snd (cbtn now e b g)) = b"
  then have "1.1 - lbt ((game_init True True 0)\<lparr>lbt := 1\<rparr>) < 0.2 \<longrightarrow>
     ebl (snd (cbtn 1.1 False True ((game_init True True 0)\<lparr>lbt := 1\<rparr>))) = False"
    by blast
  then show False by (simp add: cbtn_def game_init_def)
qed

text \<open>
  Claim C3, amended. A poll less than 200 ms after the last accepted press reports "not
  pressed" and changes nothing, the stored levels of both buttons included. So a poll at
  200 ms or more after that press compares the buttons with the levels stored before the
  window: it reports a press that began inside the window when the button is still low.
\<close>

theorem cbtn_within_window:
  "now - lbt g < 0.2 \<Longrightarrow>
     cbtn now e b g = (False, g) \<and>
     (0.2 \<le> now' - lbt g \<longrightarrow>
        fst (cbtn now' e' b' (snd (cbtn now e b g))) = ((ebl g \<and> \<not> e') \<or> (bl g \<and> \<not> b')))"
  by (simp add: cbtn_def Let_def)

theorem cbtn_within_window_witness:
  "(1.1::real) - lbt ((game_init True True 0)\<lparr>lbt := 1\<rparr>) < 0.2 \<and>
   cbtn 1.1 False True ((game_init True True 0)\<lparr>lbt := 1\<rparr>)
     = (False, (game_init True True 0)\<lparr>lbt := 1\<rparr>) \<and>
   (0.2::real) \<le> 1.3 - lbt ((game_init True True 0)\<lparr>lbt := 1\<rparr>) \<and>
   fst (cbtn 1.3 False True (snd (cbtn 1.1 False True ((game_init True True 0)\<lparr>lbt := 1\<rparr>))))"
  using cbtn_within_window [of "1.1" "(game_init True True 0)\<lparr>lbt := 1\<rparr>" False True "1.3" False True]
  by (simp add: game_init_def cbtn_def)



lemma cbtn_press:
  "0.2 \<le> now - lbt g \<Longrightarrow> (ebl g \<and> \<not> e) \<or> (bl g \<and> \<not> b) \<Longrightarrow>
     cbtn now e b g = (True, g\<lparr>ebl := e, bl := b, lbt := now\<rparr>)"
  by (simp add: cbtn_def Let_def not_less [symmetric])





section \<open>Properties of level generation\<close>

lemma shuf_loop_fold:
  "shuf_loop rnd k l = fold (\<lambda>i l. swap i (rnd i) l) (rev [1..<Suc k]) l"
  by (induction k arbitrary: l) (simp_all add: swap_def)

lemma shuf_fisher_yates: "shuf rnd l = fisher_yates rnd l"
  by (cases l) (simp_all add: shuf_def fisher_yates_def shuf_loop_fold del: upt_Suc)

lemma shuf_loop_mset:
  "k < length l \<Longrightarrow> \<forall>i. rnd i \<le> i \<Longrightarrow> mset (shuf_loop rnd k l) = mset l"
proof (induction k arbitrary: l)
  case 0
  then show ?case by simp
next
  case (Suc k)
  have j: "rnd (Suc k) < length l" using Suc.prems by (meson le_less_trans)
  have "mset (l[Suc k := l ! rnd (Suc k), rnd (Suc k) := l ! Suc k]) = mset l"
    using mset_swap [of "rnd (Suc k)" l "Suc k"] Suc.prems j by simp
  then show ?case using Suc by simp
qed

lemma shuf_mset: "\<forall>i. rnd i \<le> i \<Longrightarrow> mset (shuf rnd l) = mset l"
  by (cases l) (simp_all add: shuf_def shuf_loop_mset)

lemma py_range_nat: "0 \<le> n \<Longrightarrow> py_range 0 n = map int [0..<nat n]"
  by (rule nth_equalityI) (simp_all add: py_range_def)

lemma py_range_from: "0 \<le> a \<Longrightarrow> 0 \<le> n \<Longrightarrow> py_range a (a + n) = map int [nat a..<nat a + nat n]"
  by (rule nth_equalityI) (simp_all add: py_range_def)

lemma concat_product: "concat (map (\<lambda>i. map (\<lambda>j. f (i, j)) js) is) = map f (List.product is js)"
  by (induction "is") simp_all

lemma concat_grid_of:
  "concat (grid_of R C f) = map f (List.product (map int [0..<R]) (map int [0..<C]))"
  unfolding grid_of_def concat_product [symmetric] by (simp add: comp_def)

lemma grid_of_replicate: "replicate R (replicate C v) = grid_of R C (\<lambda>_. v)"
  by (simp add: grid_of_def map_replicate_const)

lemma grid_of_dims:
  "length (grid_of R C f) = R" "\<forall>row \<in> set (grid_of R C f). length row = C"
  by (auto simp: grid_of_def)

lemma set2_grid_of:
  "r < R \<Longrightarrow> c < C \<Longrightarrow>
     set2 (grid_of R C f) (int r) (int c) v = Inr (grid_of R C (f((int r, int c) := v)))"
  apply (simp add: set2_def py_get_def py_set_def grid_of_def)
  apply (rule nth_equalityI)
   apply simp
  apply (simp add: nth_list_update)
  apply (rule impI)
  apply (rule nth_equalityI)
   apply simp
  apply (simp add: nth_list_update)
  done

lemma place_grid_of:
  "\<forall>i \<in> set is. 0 \<le> i \<and> i < int (length ps) \<Longrightarrow>
   \<forall>p \<in> set ps. \<exists>r c. p = (int r, int c) \<and> r < R \<and> c < C \<Longrightarrow>
   place ch ps is (grid_of R C f) =
     Inr (grid_of R C (\<lambda>p. if p \<in> (\<lambda>i. ps ! nat i) ` set is then ch else f p))"
proof (induction "is" arbitrary: f)
  case Nil
  then show ?case by simp
next
  case (Cons i "is")
  have i: "0 \<le> i" "i < int (length ps)" using Cons.prems(1) by auto
  then have "ps ! nat i \<in> set ps" by simp
  with Cons.prems(2) obtain r c where rc: "ps ! nat i = (int r, int c)" "r < R" "c < C"
    by blast
  have get: "py_get ps i = Inr (int r, int c)" using i rc by (simp add: py_get_def)
  have rest: "\<forall>i \<in> set is. 0 \<le> i \<and> i < int (length ps)" using Cons.prems(1) by simp
  have funs: "(\<lambda>p. if p \<in> (\<lambda>i. ps ! nat i) ` set is then ch else (f((int r, int c) := ch)) p)
     = (\<lambda>p. if p \<in> (\<lambda>i. ps ! nat i) ` set (i # is) then ch else f p)"
    using rc(1) by (auto simp: fun_eq_iff)
  have "place ch ps (i # is) (grid_of R C f) = place ch ps is (grid_of R C (f((int r, int c) := ch)))"
    using rc by (simp add: get set2_grid_of)
  also have "\<dots> = Inr (grid_of R C (\<lambda>p. if p \<in> (\<lambda>i. ps ! nat i) ` set is then ch
                                        else (f((int r, int c) := ch)) p))"
    by (rule Cons.IH [OF rest Cons.prems(2)])
  finally show ?case unfolding funs .
qed

lemma coords_set:
  "set (List.product (map int [0..<R]) (map int [0..<C])) = {p. \<exists>r c. p = (int r, int c) \<and> r < R \<and> c < C}"
  by auto

lemma coords_distinct: "distinct (List.product (map int [0..<R]) (map int [0..<C]))"
  by (simp add: distinct_product distinct_map inj_on_def)

lemma count_map_distinct:
  "distinct xs \<Longrightarrow> count_list (map f xs) v = card {x \<in> set xs. f x = v}"
proof -
  assume d: "distinct xs"
  have "count_list (map f xs) v = length (filter (\<lambda>x. f x = v) xs)"
    by (induction xs) auto
  also have "\<dots> = card {x \<in> set xs. f x = v}"
    using distinct_length_filter [OF d, of "\<lambda>x. f x = v"] by (simp add: Int_def conj_commute)
  finally show ?thesis .
qed

lemma nth_image_take_drop:
  "a + n \<le> length xs \<Longrightarrow> (\<lambda>i. xs ! nat i) ` set (map int [a..<a + n]) = set (take n (drop a xs))"
proof -
  assume le: "a + n \<le> length xs"
  have "take n (drop a xs) = map (\<lambda>k. xs ! k) [a..<a + n]"
    using le by (intro nth_equalityI) (simp_all add: add.commute)
  then show ?thesis by (simp add: image_image)
qed

lemma nth_image_take:
  "n \<le> length xs \<Longrightarrow> (\<lambda>i. xs ! nat i) ` set (map int [0..<n]) = set (take n xs)"
  using nth_image_take_drop [of 0 n xs] by simp

lemma ilvl_grid_total:
  assumes nonneg: "0 \<le> r" "0 \<le> co" "0 \<le> tr" "0 \<le> bm"
    and fits: "tr + bm \<le> r * co"
    and rnd: "\<forall>i. rnd i \<le> i"
  shows "\<exists>g. ilvl_grid rnd r co tr bm = Inr g \<and>
           length g = nat r \<and> (\<forall>row \<in> set g. length row = nat co) \<and>
           count_list (concat g) CHR ''T'' = nat tr \<and>
           count_list (concat g) CHR ''B'' = nat bm \<and>
           count_list (concat g) CHR '' '' = nat (r * co - tr - bm) \<and>
           mset (shuffled rnd r co) = mset (List.product (py_range 0 r) (py_range 0 co)) \<and>
           distinct (shuffled rnd r co) \<and>
           (\<forall>i<nat r. \<forall>j<nat co.
              g ! i ! j =
                (if (int i, int j) \<in> set (take (nat tr) (shuffled rnd r co)) then CHR ''T''
                 else if (int i, int j) \<in> set (take (nat bm) (drop (nat tr) (shuffled rnd r co)))
                 then CHR ''B'' else CHR '' ''))"
proof -
  define R C T B where "R = nat r" and "C = nat co" and "T = nat tr" and "B = nat bm"
  define cs where "cs = List.product (map int [0..<R]) (map int [0..<C])"
  define ps where "ps = shuf rnd cs"
  define Ts Bs where "Ts = set (take T ps)" and "Bs = set (take B (drop T ps))"
  define F1 where "F1 = (\<lambda>p. if p \<in> Ts then CHR ''T'' else CHR '' '')"
  define F2 where "F2 = (\<lambda>p. if p \<in> Bs then CHR ''B'' else F1 p)"
  have mset: "mset ps = mset cs" unfolding ps_def by (rule shuf_mset [OF rnd])
  have set_ps: "set ps = set cs" using mset by (rule mset_eq_setD)
  have dist: "distinct ps" using mset coords_distinct [of R C] mset_eq_imp_distinct_iff cs_def by blast
  have len: "length ps = R * C" using mset_eq_length [OF mset] by (simp add: cs_def)
  have "nat (tr + bm) \<le> nat (r * co)" using fits by simp
  then have le: "T + B \<le> R * C"
    using nonneg by (simp add: R_def C_def T_def B_def nat_add_distrib nat_mult_distrib)
  have valid: "\<forall>p \<in> set ps. \<exists>r c. p = (int r, int c) \<and> r < R \<and> c < C"
    unfolding set_ps cs_def coords_set by blast
  have rT: "py_range 0 tr = map int [0..<T]" using nonneg by (simp add: py_range_nat T_def)
  have rB: "py_range tr (tr + bm) = map int [T..<T + B]"
    using nonneg py_range_from [of tr bm] by (simp add: T_def B_def)
  have rR: "py_range 0 r = map int [0..<R]" and rC: "py_range 0 co = map int [0..<C]"
    using nonneg by (simp_all add: py_range_nat R_def C_def)
  have iT: "(\<lambda>i. ps ! nat i) ` set (map int [0..<T]) = Ts"
    unfolding Ts_def using le len by (intro nth_image_take) simp
  have iB: "(\<lambda>i. ps ! nat i) ` set (map int [T..<T + B]) = Bs"
    unfolding Bs_def using le len by (intro nth_image_take_drop) simp
  have le': "T + B \<le> length ps" using le len by simp
  have vT: "\<forall>i \<in> set (map int [0..<T]). 0 \<le> i \<and> i < int (length ps)"
    using le' by auto
  have vB: "\<forall>i \<in> set (map int [T..<T + B]). 0 \<le> i \<and> i < int (length ps)"
    using le' by auto
  have p1: "place CHR ''T'' ps (map int [0..<T]) (grid_of R C (\<lambda>_. CHR '' '')) = Inr (grid_of R C F1)"
    unfolding F1_def iT [symmetric] by (rule place_grid_of [OF vT valid])
  have p2: "place CHR ''B'' ps (map int [T..<T + B]) (grid_of R C F1) = Inr (grid_of R C F2)"
    unfolding F2_def iB [symmetric] by (rule place_grid_of [OF vB valid])
  have res: "ilvl_grid rnd r co tr bm = Inr (grid_of R C F2)"
    unfolding ilvl_grid_def Let_def rT rB rR rC
    using p1 p2 by (simp add: grid_of_replicate ps_def cs_def R_def [symmetric] C_def [symmetric])
  have disj: "Ts \<inter> Bs = {}"
  proof -
    have "distinct (take T ps @ drop T ps)" using dist by simp
    then have "set (take T ps) \<inter> set (drop T ps) = {}" by (simp only: distinct_append) 
    moreover have "Bs \<subseteq> set (drop T ps)" unfolding Bs_def by (rule set_take_subset)
    ultimately show ?thesis unfolding Ts_def by blast
  qed
  have subT: "Ts \<subseteq> set cs" unfolding Ts_def set_ps [symmetric] by (rule set_take_subset)
  have subB: "Bs \<subseteq> set cs" unfolding Bs_def set_ps [symmetric]
    by (meson set_take_subset set_drop_subset subset_trans)
  have cT: "card Ts = T" unfolding Ts_def using dist le len by (simp add: distinct_card)
  have cB: "card Bs = B" unfolding Bs_def using dist le len by (simp add: distinct_card)
  have cnt: "count_list (concat (grid_of R C F2)) v = card {p \<in> set cs. F2 p = v}" for v
    unfolding concat_grid_of cs_def [symmetric]
    using coords_distinct [of R C] by (simp add: count_map_distinct cs_def)
  have sT: "{p \<in> set cs. F2 p = CHR ''T''} = Ts"
    using disj subT by (auto simp: F2_def F1_def)
  have sB: "{p \<in> set cs. F2 p = CHR ''B''} = Bs"
    using subB by (auto simp: F2_def F1_def)
  have sE: "{p \<in> set cs. F2 p = CHR '' ''} = set cs - Ts - Bs"
    by (auto simp: F2_def F1_def)
  have cE: "card (set cs - Ts - Bs) = R * C - T - B"
  proof -
    have "card (set cs) = length cs" unfolding cs_def by (rule distinct_card [OF coords_distinct])
    then have "card (set cs) = R * C" by (simp add: cs_def)
    moreover have "card (set cs - Ts) = card (set cs) - card Ts"
      using subT by (simp add: card_Diff_subset finite_subset)
    moreover have "card (set cs - Ts - Bs) = card (set cs - Ts) - card Bs"
      using subB disj by (intro card_Diff_subset) (auto intro: finite_subset)
    ultimately show ?thesis using cT cB by simp
  qed
  have "int (R * C - T - B) = int R * int C - int T - int B"
    using le by (simp add: of_nat_diff)
  also have "\<dots> = r * co - tr - bm"
    using nonneg by (simp add: R_def C_def T_def B_def)
  finally have nE: "nat (r * co - tr - bm) = R * C - T - B" by simp
  have sh: "shuffled rnd r co = ps"
    by (simp add: shuffled_def ps_def cs_def rR rC shuf_fisher_yates)
  have ms: "mset ps = mset (List.product (py_range 0 r) (py_range 0 co))"
    using mset by (simp add: cs_def rR rC)
  have cell: "grid_of R C F2 ! i ! j =
                (if (int i, int j) \<in> Ts then CHR ''T''
                 else if (int i, int j) \<in> Bs then CHR ''B'' else CHR '' '')"
    if "i < R" "j < C" for i j
    using that disj by (auto simp: grid_of_def F2_def F1_def)
  have counts: "count_list (concat (grid_of R C F2)) CHR ''T'' = T"
    "count_list (concat (grid_of R C F2)) CHR ''B'' = B"
    "count_list (concat (grid_of R C F2)) CHR '' '' = R * C - T - B"
    using cnt sT sB sE cT cB cE by simp_all
  show ?thesis
    unfolding sh
    using res grid_of_dims [of R C F2] counts nE ms dist cell
    by (simp add: R_def [symmetric] C_def [symmetric] T_def [symmetric] B_def [symmetric]
        Ts_def [symmetric] Bs_def [symmetric])
qed

lemma lvl_table:
  "1 \<le> n \<Longrightarrow> n \<le> 9 \<Longrightarrow>
     \<exists>r co tr bm nd. lvl n = Some (r, co, tr, bm, nd) \<and>
        0 \<le> r \<and> 0 \<le> co \<and> 0 \<le> tr \<and> 0 \<le> bm \<and> tr + bm \<le> r * co"
proof -
  assume "1 \<le> n" "n \<le> 9"
  then have "n \<in> {9, 8, 7} \<or> n \<in> {6, 5, 4} \<or> n \<in> {3, 2, 1}"
    by (simp only: insert_iff empty_iff) presburger
  then show ?thesis by (elim disjE insertE emptyE) (simp_all add: lvl_def)
qed

lemma ilvl_grd_link:
  "cfg (df gm) = Some c \<Longrightarrow> lvl (lv gm) = Some (r, co, tr, bm, nd) \<Longrightarrow>
   ilvl_grid rnd r co tr bm = Inr g \<Longrightarrow>
     \<exists>gm'. ilvl rnd now gm = Inr gm' \<and> grd gm' = g \<and>
            rev_f gm' = replicate (nat r) (replicate (nat co) False)"
  by (simp add: ilvl_def)

text \<open>
  Claim C5. For every level configuration with non-negative rows, columns, treasure and
  bomb counts and with treasures plus bombs at most rows times columns, and for every
  sequence of draws (each within its range), building the grid raises nothing and gives
  a grid of that many rows and columns with exactly the configured number of treasure
  cells and of bomb cells and every other cell empty. The coordinates are shuffled by
  the Fisher-Yates loop of the design (from the last index down to 1, element \<open>i\<close> is
  swapped with the element at the index drawn from 0 to \<open>i\<close>): the shuffled list is a
  permutation of all coordinates without repetition, the treasure cells are exactly its
  first \<open>tr\<close> entries and the bomb cells exactly its next \<open>bm\<close> entries. When the
  configuration is the table's entry for the level of a game, \<open>ilvl\<close> succeeds and
  stores this grid in \<open>grd\<close>, with nothing revealed. So for every difficulty, every
  level from 1 to 9 and all draws, \<open>ilvl\<close> leaves in \<open>grd\<close> a grid with the counts and
  the cells the level's table entry and the shuffle give.
\<close>

theorem ilvl_grid_counts:
  assumes nonneg: "0 \<le> r" "0 \<le> co" "0 \<le> tr" "0 \<le> bm"
    and fits: "tr + bm \<le> r * co"
    and rnd: "\<forall>i. rnd i \<le> i"
  shows "(\<exists>g. ilvl_grid rnd r co tr bm = Inr g \<and>
           length g = nat r \<and> (\<forall>row \<in> set g. length row = nat co) \<and>
           count_list (concat g) CHR ''T'' = nat tr \<and>
           count_list (concat g) CHR ''B'' = nat bm \<and>
           count_list (concat g) CHR '' '' = nat (r * co - tr - bm) \<and>
           mset (shuffled rnd r co) = mset (List.product (py_range 0 r) (py_range 0 co)) \<and>
           distinct (shuffled rnd r co) \<and>
           (\<forall>i<nat r. \<forall>j<nat co.
              g ! i ! j =
                (if (int i, int j) \<in> set (take (nat tr) (shuffled rnd r co)) then CHR ''T''
                 else if (int i, int j) \<in> set (take (nat bm) (drop (nat tr) (shuffled rnd r co)))
                 then CHR ''B'' else CHR '' '')) \<and>
           (\<forall>gm c nd now. cfg (df gm) = Some c \<and> lvl (lv gm) = Some (r, co, tr, bm, nd) \<longrightarrow>
              (\<exists>gm'. ilvl rnd now gm = Inr gm' \<and> grd gm' = g \<and>
                     rev_f gm' = replicate (nat r) (replicate (nat co) False)))) \<and>
         (\<forall>gm c now. cfg (df gm) = Some c \<and> 1 \<le> lv gm \<and> lv gm \<le> 9 \<longrightarrow>
            (\<exists>gm' r' co' tr' bm' nd'.
               lvl (lv gm) = Some (r', co', tr', bm', nd') \<and> ilvl rnd now gm = Inr gm' \<and>
               length (grd gm') = nat r' \<and> (\<forall>row \<in> set (grd gm'). length row = nat co') \<and>
               count_list (concat (grd gm')) CHR ''T'' = nat tr' \<and>
               count_list (concat (grd gm')) CHR ''B'' = nat bm' \<and>
               count_list (concat (grd gm')) CHR '' '' = nat (r' * co' - tr' - bm') \<and>
               (\<forall>i<nat r'. \<forall>j<nat co'.
                  grd gm' ! i ! j =
                    (if (int i, int j) \<in> set (take (nat tr') (shuffled rnd r' co')) then CHR ''T''
                     else if (int i, int j)
                               \<in> set (take (nat bm') (drop (nat tr') (shuffled rnd r' co')))
                     then CHR ''B'' else CHR '' ''))))"
proof (rule conjI)
  from ilvl_grid_total [OF assms] obtain g where
    g: "ilvl_grid rnd r co tr bm = Inr g"
    and props: "length g = nat r \<and> (\<forall>row \<in> set g. length row = nat co) \<and>
           count_list (concat g) CHR ''T'' = nat tr \<and>
           count_list (concat g) CHR ''B'' = nat bm \<and>
           count_list (concat g) CHR '' '' = nat (r * co - tr - bm) \<and>
           mset (shuffled rnd r co) = mset (List.product (py_range 0 r) (py_range 0 co)) \<and>
           distinct (shuffled rnd r co) \<and>
           (\<forall>i<nat r. \<forall>j<nat co.
              g ! i ! j =
                (if (int i, int j) \<in> set (take (nat tr) (shuffled rnd r co)) then CHR ''T''
                 else if (int i, int j) \<in> set (take (nat bm) (drop (nat tr) (shuffled rnd r co)))
                 then CHR ''B'' else CHR '' ''))"
    by blast
  have link: "\<forall>gm c nd now. cfg (df gm) = Some c \<and> lvl (lv gm) = Some (r, co, tr, bm, nd) \<longrightarrow>
              (\<exists>gm'. ilvl rnd now gm = Inr gm' \<and> grd gm' = g \<and>
                     rev_f gm' = replicate (nat r) (replicate (nat co) False))"
    using ilvl_grd_link [OF _ _ g] by blast
  show "\<exists>g. ilvl_grid rnd r co tr bm = Inr g \<and>
           length g = nat r \<and> (\<forall>row \<in> set g. length row = nat co) \<and>
           count_list (concat g) CHR ''T'' = nat tr \<and>
           count_list (concat g) CHR ''B'' = nat bm \<and>
           count_list (concat g) CHR '' '' = nat (r * co - tr - bm) \<and>
           mset (shuffled rnd r co) = mset (List.product (py_range 0 r) (py_range 0 co)) \<and>
           distinct (shuffled rnd r co) \<and>
           (\<forall>i<nat r. \<forall>j<nat co.
              g ! i ! j =
                (if (int i, int j) \<in> set (take (nat tr) (shuffled rnd r co)) then CHR ''T''
                 else if (int i, int j) \<in> set (take (nat bm) (drop (nat tr) (shuffled rnd r co)))
                 then CHR ''B'' else CHR '' '')) \<and>
           (\<forall>gm c nd now. cfg (df gm) = Some c \<and> lvl (lv gm) = Some (r, co, tr, bm, nd) \<longrightarrow>
              (\<exists>gm'. ilvl rnd now gm = Inr gm' \<and> grd gm' = g \<and>
                     rev_f gm' = replicate (nat r) (replicate (nat co) False)))"
    using g props link by blast
next
  show "\<forall>gm c now. cfg (df gm) = Some c \<and> 1 \<le> lv gm \<and> lv gm \<le> 9 \<longrightarrow>
            (\<exists>gm' r' co' tr' bm' nd'.
               lvl (lv gm) = Some (r', co', tr', bm', nd') \<and> ilvl rnd now gm = Inr gm' \<and>
               length (grd gm') = nat r' \<and> (\<forall>row \<in> set (grd gm'). length row = nat co') \<and>
               count_list (concat (grd gm')) CHR ''T'' = nat tr' \<and>
               count_list (concat (grd gm')) CHR ''B'' = nat bm' \<and>
               count_list (concat (grd gm')) CHR '' '' = nat (r' * co' - tr' - bm') \<and>
               (\<forall>i<nat r'. \<forall>j<nat co'.
                  grd gm' ! i ! j =
                    (if (int i, int j) \<in> set (take (nat tr') (shuffled rnd r' co')) then CHR ''T''
                     else if (int i, int j)
                               \<in> set (take (nat bm') (drop (nat tr') (shuffled rnd r' co')))
                     then CHR ''B'' else CHR '' '')))"
  proof (intro allI impI)
    fix gm :: game and c :: difficulty and now :: real
    assume a: "cfg (df gm) = Some c \<and> 1 \<le> lv gm \<and> lv gm \<le> 9"
    then obtain r' co' tr' bm' nd' where
      t: "lvl (lv gm) = Some (r', co', tr', bm', nd')"
      and b: "0 \<le> r'" "0 \<le> co'" "0 \<le> tr'" "0 \<le> bm'" "tr' + bm' \<le> r' * co'"
      using lvl_table [of "lv gm"] by blast
    from ilvl_grid_total [OF b rnd] obtain g where
      g: "ilvl_grid rnd r' co' tr' bm' = Inr g"
      and props: "length g = nat r'" "\<forall>row \<in> set g. length row = nat co'"
           "count_list (concat g) CHR ''T'' = nat tr'"
           "count_list (concat g) CHR ''B'' = nat bm'"
           "count_list (concat g) CHR '' '' = nat (r' * co' - tr' - bm')"
           "\<forall>i<nat r'. \<forall>j<nat co'.
              g ! i ! j =
                (if (int i, int j) \<in> set (take (nat tr') (shuffled rnd r' co')) then CHR ''T''
                 else if (int i, int j) \<in> set (take (nat bm') (drop (nat tr') (shuffled rnd r' co')))
                 then CHR ''B'' else CHR '' '')"
      by blast
    from ilvl_grd_link [OF conjunct1 [OF a] t g, of now] obtain gm' where
      gm': "ilvl rnd now gm = Inr gm'" "grd gm' = g" by blast
    show "\<exists>gm' r' co' tr' bm' nd'.
               lvl (lv gm) = Some (r', co', tr', bm', nd') \<and> ilvl rnd now gm = Inr gm' \<and>
               length (grd gm') = nat r' \<and> (\<forall>row \<in> set (grd gm'). length row = nat co') \<and>
               count_list (concat (grd gm')) CHR ''T'' = nat tr' \<and>
               count_list (concat (grd gm')) CHR ''B'' = nat bm' \<and>
               count_list (concat (grd gm')) CHR '' '' = nat (r' * co' - tr' - bm') \<and>
               (\<forall>i<nat r'. \<forall>j<nat co'.
                  grd gm' ! i ! j =
                    (if (int i, int j) \<in> set (take (nat tr') (shuffled rnd r' co')) then CHR ''T''
                     else if (int i, int j)
                               \<in> set (take (nat bm') (drop (nat tr') (shuffled rnd r' co')))
                     then CHR ''B'' else CHR '' ''))"
      using t gm'(1) props unfolding gm'(2) [symmetric] by blast
  qed
qed

text \<open>
  Level 1 (2 by 2, two treasures, one bomb) with the draws 1, 1, 0, as \<open>ilvl\<close> builds it
  for a new game on the easy difficulty.
\<close>

theorem ilvl_grid_counts_witness:
  "(0::int) \<le> 2 \<and> (0::int) \<le> 1 \<and> (2::int) + 1 \<le> 2 * 2 \<and> (\<forall>i::nat. i div 2 \<le> i) \<and>
   cfg (df (game_init True True 0)) = Some \<lparr>c_n = ''EASY'', c_hp = 6, c_t = 60, c_h10 = 2, c_t10 = 30\<rparr> \<and>
   lvl (lv (game_init True True 0)) = Some (2, 2, 2, 1, 1) \<and>
   shuffled (\<lambda>i. i div 2) 2 2 = [(1, 0), (0, 0), (1, 1), (0, 1)] \<and>
   ilvl_grid (\<lambda>i. i div 2) 2 2 2 1 = Inr [[CHR ''T'', CHR '' ''], [CHR ''T'', CHR ''B'']] \<and>
   (\<exists>gm'. ilvl (\<lambda>i. i div 2) 7 (game_init True True 0) = Inr gm' \<and>
          grd gm' = [[CHR ''T'', CHR '' ''], [CHR ''T'', CHR ''B'']] \<and>
          count_list (concat (grd gm')) CHR ''T'' = 2 \<and>
          count_list (concat (grd gm')) CHR ''B'' = 1 \<and>
          count_list (concat (grd gm')) CHR '' '' = 1)"
proof -
  have rnd: "\<forall>i::nat. i div 2 \<le> i" by simp
  have run: "ilvl_grid (\<lambda>i. i div 2) 2 2 2 1 = Inr [[CHR ''T'', CHR '' ''], [CHR ''T'', CHR ''B'']]"
    by code_simp
  have sh: "shuffled (\<lambda>i. i div 2) 2 2 = [(1, 0), (0, 0), (1, 1), (0, 1)]"
    by code_simp
  have c: "cfg (df (game_init True True 0)) = Some \<lparr>c_n = ''EASY'', c_hp = 6, c_t = 60, c_h10 = 2, c_t10 = 30\<rparr>"
    "lvl (lv (game_init True True 0)) = Some (2, 2, 2, 1, 1)"
    by (simp_all add: game_init_def cfg_def lvl_def)
  have p: "(0::int) \<le> 2" "(0::int) \<le> 1" "(2::int) + 1 \<le> 2 * 2" by simp_all
  from ilvl_grid_counts [of 2 2 2 1 "\<lambda>i. i div 2", OF p(1) p(1) p(1) p(2) p(3) rnd]
  obtain g where g: "ilvl_grid (\<lambda>i. i div 2) 2 2 2 1 = Inr g"
    and link: "\<forall>gm c nd now. cfg (df gm) = Some c \<and> lvl (lv gm) = Some (2, 2, 2, 1, nd) \<longrightarrow>
              (\<exists>gm'. ilvl (\<lambda>i. i div 2) now gm = Inr gm' \<and> grd gm' = g \<and>
                     rev_f gm' = replicate (nat 2) (replicate (nat 2) False))"
    by blast
  from g run have gv: "g = [[CHR ''T'', CHR '' ''], [CHR ''T'', CHR ''B'']]" by simp
  from link c obtain gm' where
    "ilvl (\<lambda>i. i div 2) 7 (game_init True True 0) = Inr gm'" "grd gm' = g"
    by blast
  then have "\<exists>gm'. ilvl (\<lambda>i. i div 2) 7 (game_init True True 0) = Inr gm' \<and>
          grd gm' = [[CHR ''T'', CHR '' ''], [CHR ''T'', CHR ''B'']] \<and>
          count_list (concat (grd gm')) CHR ''T'' = 2 \<and>
          count_list (concat (grd gm')) CHR ''B'' = 1 \<and>
          count_list (concat (grd gm')) CHR '' '' = 1"
    unfolding gv by simp
  then show ?thesis using p rnd c sh run by blast
qed

section \<open>Properties of the cursor\<close>

lemma sample_game_fields:
  "grd sample_game = [[CHR ''T'', CHR '' ''], [CHR ''T'', CHR ''B'']]"
  "rev_f sample_game = [[False, False], [False, True]]"
  "pos sample_game = (1, 1)"
  by (simp_all add: sample_game_def)

lemma divmod_rc: "c < C \<Longrightarrow> (r * C + c) div C = r \<and> (r * C + c) mod C = (c::nat)"
  by simp

lemma py_get_0: "xs \<noteq> [] \<Longrightarrow> py_get xs 0 = Inr (xs ! 0)"
  by (simp add: py_get_def)

lemma move_fwd_rc:
  assumes "length (grd g) = R" "length (grd g ! 0) = C" "r < R" "c < C"
    "pos g = (int r, int c)" "0 < d"
  shows "move d g = Inr (g\<lparr>pos := cell_at C (Suc (r * C + c) mod (R * C))\<rparr>)"
proof -
  have ne: "grd g \<noteq> []" using assms by auto
  have rC: "r * C + C \<le> R * C" using assms(3) by (metis Suc_leI mult_Suc mult_le_mono1 add.commute)
  show ?thesis
  proof (cases "Suc c < C")
    case True
    then have "Suc (r * C + c) < R * C" using rC by simp
    moreover have "Suc (r * C + c) div C = r" "Suc (r * C + c) mod C = Suc c"
      using divmod_rc [OF True, of r] by simp_all
    ultimately show ?thesis using assms True
      by (simp add: move_def py_get_0 [OF ne] cell_at_def)
  next
    case False
    then have c: "Suc c = C" using assms(4) by simp
    then have eq: "Suc (r * C + c) = Suc r * C" by simp
    show ?thesis
    proof (cases "Suc r < R")
      case True
      have "0 < C" using assms(4) by simp
      with True have "Suc r * C < R * C" by (simp only: mult_less_cancel2)
      then have "cell_at C (Suc (r * C + c) mod (R * C)) = (int (Suc r), 0)"
        unfolding eq using assms(4) by (simp add: cell_at_def)
      moreover have "(int r + 1) mod int R = int (Suc r)" using True by simp
      ultimately show ?thesis using assms c
        by (simp add: move_def py_get_0 [OF ne])
    next
      case False
      then have r: "Suc r = R" using assms(3) by simp
      have "cell_at C (Suc (r * C + c) mod (R * C)) = (0, 0)"
        unfolding eq r by (simp add: cell_at_def)
      moreover have "(int r + 1) mod int R = 0" using r by (metis of_nat_Suc mod_self add.commute)
      ultimately show ?thesis using assms c
        by (simp add: move_def py_get_0 [OF ne])
    qed
  qed
qed


lemma move_bwd_rc:
  assumes "length (grd g) = R" "length (grd g ! 0) = C" "r < R" "c < C"
    "pos g = (int r, int c)" "d \<le> 0"
  shows "move d g = Inr (g\<lparr>pos := cell_at C ((r * C + c + R * C - 1) mod (R * C))\<rparr>)"
proof -
  have ne: "grd g \<noteq> []" using assms by auto
  have C: "0 < C" and R: "0 < R" using assms by simp_all
  have rC: "r * C + C \<le> R * C" using assms(3) by (metis Suc_leI mult_Suc mult_le_mono1 add.commute)
  have N: "0 < R * C" using C R by simp
  show ?thesis
  proof (cases c)
    case (Suc c')
    have "r * C + c + R * C - 1 = (r * C + c') + R * C" using Suc by simp
    moreover have "r * C + c' < R * C" using rC assms(4) Suc by simp
    ultimately have "(r * C + c + R * C - 1) mod (R * C) = r * C + c'" by simp
    moreover have "(r * C + c') div C = r" "(r * C + c') mod C = c'"
      using divmod_rc [of c' C r] assms(4) Suc by simp_all
    ultimately show ?thesis using assms Suc
      by (simp add: move_def py_get_0 [OF ne] cell_at_def)
  next
    case 0
    note c0 = 0
    show ?thesis
    proof (cases r)
      case (Suc r')
      obtain C' where C': "C = Suc C'" using C by (cases C) auto
      have "r * C + c + R * C - 1 = (r' * C + C') + R * C" using Suc c0 C' by simp
      moreover have "r' * C + C' < R * C" using rC Suc C' by simp
      ultimately have "(r * C + c + R * C - 1) mod (R * C) = r' * C + C'" by simp
      moreover have "(r' * C + C') div C = r'" "(r' * C + C') mod C = C'"
        using divmod_rc [of C' C r'] C' by simp_all
      moreover have "(int r - 1) mod int R = int r'" using Suc assms(3) by simp
      ultimately show ?thesis using assms c0 C'
        by (simp add: move_def py_get_0 [OF ne] cell_at_def)
    next
      case 0
      obtain C' where C': "C = Suc C'" using C by (cases C) auto
      obtain R' where R': "R = Suc R'" using R by (cases R) auto
      have "r * C + c + R * C - 1 = R' * C + C'" using 0 c0 C' R' by simp
      moreover have "R' * C + C' < R * C" using C' R' by simp
      ultimately have "(r * C + c + R * C - 1) mod (R * C) = R' * C + C'" by simp
      moreover have "(R' * C + C') div C = R'" "(R' * C + C') mod C = C'"
        using divmod_rc [of C' C R'] C' by simp_all
      moreover have "(int r - 1) mod int R = int R'"
        using 0 R' by (simp add: zmod_minus1)
      ultimately show ?thesis using assms c0 C'
        by (simp add: move_def py_get_0 [OF ne] cell_at_def)
    qed
  qed
qed

lemma cell_at_rc: "0 < C \<Longrightarrow> cell_at C k = (int (k div C), int (k mod C)) \<and> k mod C < C \<and> (k div C) * C + k mod C = k"
  by (simp add: cell_at_def)

lemma move_fwd_index:
  assumes "length (grd g) = R" "length (grd g ! 0) = C" "0 < C" "k < R * C"
    "pos g = cell_at C k" "0 < d"
  shows "move d g = Inr (g\<lparr>pos := cell_at C (Suc k mod (R * C))\<rparr>)"
proof -
  have "k div C < R" using assms(3,4) by (simp add: less_mult_imp_div_less)
  then show ?thesis
    using move_fwd_rc [of g R C "k div C" "k mod C" d] assms cell_at_rc [OF assms(3), of k]
    by simp
qed

lemma move_bwd_index:
  assumes "length (grd g) = R" "length (grd g ! 0) = C" "0 < C" "k < R * C"
    "pos g = cell_at C k" "d \<le> 0"
  shows "move d g = Inr (g\<lparr>pos := cell_at C ((k + R * C - 1) mod (R * C))\<rparr>)"
proof -
  have "k div C < R" using assms(3,4) by (simp add: less_mult_imp_div_less)
  then show ?thesis
    using move_bwd_rc [of g R C "k div C" "k mod C" d] assms cell_at_rc [OF assms(3), of k]
    by simp
qed

lemma moves_fwd_index:
  assumes "length (grd g) = R" "length (grd g ! 0) = C" "0 < C" "k < R * C"
    "pos g = cell_at C k" "0 < d"
  shows "moves (replicate n d) g = Inr (g\<lparr>pos := cell_at C ((k + n) mod (R * C))\<rparr>)"
  using assms
proof (induction n arbitrary: g k)
  case 0
  then show ?case by simp
next
  case (Suc n)
  let ?g1 = "g\<lparr>pos := cell_at C (Suc k mod (R * C))\<rparr>"
  have step: "move d g = Inr ?g1" using move_fwd_index [OF Suc.prems] .
  have N: "0 < R * C" using Suc.prems(4) by (rule le_less_trans [OF le0])
  have "moves (replicate n d) ?g1 = Inr (?g1\<lparr>pos := cell_at C ((Suc k mod (R * C) + n) mod (R * C))\<rparr>)"
    using Suc.prems N by (intro Suc.IH) simp_all
  moreover have "(Suc k mod (R * C) + n) mod (R * C) = (k + Suc n) mod (R * C)"
    by (simp add: mod_add_left_eq)
  ultimately show ?case using step by simp
qed


lemma cell_at_bij:
  "0 < C \<Longrightarrow> bij_betw (cell_at C) {..<R * C} {(int r, int c) |r c. r < R \<and> c < C}"
proof (rule bij_betwI')
  fix x y assume "x \<in> {..<R * C}" "y \<in> {..<R * C}"
  show "(cell_at C x = cell_at C y) = (x = y)"
    by (auto simp: cell_at_def) (metis div_mult_mod_eq)
next
  fix k assume "0 < C" "k \<in> {..<R * C}"
  then show "cell_at C k \<in> {(int r, int c) |r c. r < R \<and> c < C}"
    by (simp add: cell_at_def less_mult_imp_div_less)
next
  fix p assume C: "0 < C" and "p \<in> {(int r, int c) |r c. r < R \<and> c < C}"
  then obtain r c where p: "p = (int r, int c)" "r < R" "c < C" by blast
  have "r * C + C \<le> R * C" using p(2) by (metis Suc_leI mult_Suc mult_le_mono1 add.commute)
  then have "r * C + c < R * C" using p(3) by simp
  moreover have "cell_at C (r * C + c) = p" using divmod_rc [OF p(3), of r] p(1) by (simp add: cell_at_def)
  ultimately show "\<exists>k \<in> {..<R * C}. p = cell_at C k" by blast
qed

text \<open>
  Claim C7. In a grid of \<open>R\<close> rows and \<open>C\<close> columns, with the cursor on the cell of
  row-major index \<open>k\<close>, a move with positive direction puts the cursor on the cell of
  index \<open>k + 1\<close> modulo \<open>R * C\<close>: past the last column it goes to column 0 of the next
  row modulo the row count, and from the last cell to row 0, column 0. A move with
  negative direction puts it on the cell of index \<open>k - 1\<close> modulo \<open>R * C\<close>: before the
  first column it goes to the last column of the previous row modulo the row count.
  \<open>n\<close> forward moves are back on the starting cell exactly when \<open>R * C\<close> divides \<open>n\<close>, so
  the forward move is one cycle through all \<open>R * C\<close> cells (the indices below \<open>R * C\<close>
  correspond one to one to the cells); the backward move undoes the forward move and
  the forward move undoes the backward move.
\<close>

theorem move_cyclic:
  assumes "length (grd g) = R" "length (grd g ! 0) = C" "0 < C" "k < R * C"
    "pos g = cell_at C k" "0 < d" "d' < 0"
  shows "move d g = Inr (g\<lparr>pos := cell_at C (Suc k mod (R * C))\<rparr>) \<and>
         move d' g = Inr (g\<lparr>pos := cell_at C ((k + R * C - 1) mod (R * C))\<rparr>) \<and>
         moves (replicate n d) g = Inr (g\<lparr>pos := cell_at C ((k + n) mod (R * C))\<rparr>) \<and>
         (moves (replicate n d) g = Inr g \<longleftrightarrow> R * C dvd n) \<and>
         moves [d, d'] g = Inr g \<and> moves [d', d] g = Inr g \<and>
         bij_betw (cell_at C) {..<R * C} {(int r, int c) |r c. r < R \<and> c < C}"
proof -
  let ?N = "R * C"
  have N: "0 < ?N" using assms(4) by (rule le_less_trans [OF le0])
  have d': "d' \<le> 0" using assms(7) by simp
  have fwd: "move d g = Inr (g\<lparr>pos := cell_at C (Suc k mod ?N)\<rparr>)"
    using assms(1-6) by (rule move_fwd_index)
  have bwd: "move d' g = Inr (g\<lparr>pos := cell_at C ((k + ?N - 1) mod ?N)\<rparr>)"
    using assms(1-5) d' by (rule move_bwd_index)
  have run: "moves (replicate n d) g = Inr (g\<lparr>pos := cell_at C ((k + n) mod ?N)\<rparr>)"
    using assms(1-6) by (rule moves_fwd_index)
  have bij: "bij_betw (cell_at C) {..<?N} {(int r, int c) |r c. r < R \<and> c < C}"
    using assms(3) by (rule cell_at_bij)
  have inj: "cell_at C x = cell_at C y \<longleftrightarrow> x = y" if "x < ?N" "y < ?N" for x y
    using bij that by (auto simp: bij_betw_def inj_on_def)
  have upd: "g\<lparr>pos := cell_at C x\<rparr> = g \<longleftrightarrow> x = k" if "x < ?N" for x
  proof
    assume "g\<lparr>pos := cell_at C x\<rparr> = g"
    then have "pos (g\<lparr>pos := cell_at C x\<rparr>) = pos g" by simp
    then show "x = k" using inj [OF that assms(4)] assms(5) by simp
  next
    assume "x = k" then show "g\<lparr>pos := cell_at C x\<rparr> = g" using assms(5) by simp
  qed
  have cyc: "moves (replicate n d) g = Inr g \<longleftrightarrow> ?N dvd n"
  proof -
    have iff: "(k + n) mod ?N = k \<longleftrightarrow> ?N dvd n"
    proof
      assume eq: "(k + n) mod ?N = k"
      define q where "q = (k + n) div ?N"
      have "q * ?N + (k + n) mod ?N = k + n" unfolding q_def by (rule div_mult_mod_eq)
      then have "q * ?N + k = k + n" by (simp only: eq)
      then have "n = q * ?N" by simp
      then show "?N dvd n" by (simp only: dvd_triv_right)
    next
      assume "?N dvd n"
      then obtain m where m: "n = ?N * m" by (rule dvdE)
      have "(k + ?N * m) mod ?N = k mod ?N" by (rule mod_mult_self2)
      then show "(k + n) mod ?N = k" using assms(4) by (simp only: m mod_less)
    qed
    have lt: "(k + n) mod ?N < ?N" using N by (rule mod_less_divisor)
    show ?thesis unfolding run using upd [OF lt] iff by simp
  qed
  have fb: "moves [d, d'] g = Inr g"
  proof -
    let ?g1 = "g\<lparr>pos := cell_at C (Suc k mod ?N)\<rparr>"
    have "move d' ?g1 = Inr (?g1\<lparr>pos := cell_at C ((Suc k mod ?N + ?N - 1) mod ?N)\<rparr>)"
      using assms(1-3) N d' by (intro move_bwd_index) simp_all
    moreover have "(Suc k mod ?N + ?N - 1) mod ?N = k"
    proof (cases "Suc k < ?N")
      case True then show ?thesis using assms(4) by simp
    next
      case False
      then have "Suc k = ?N" using assms(4) by simp
      then show ?thesis using assms(4) by (metis add_0 diff_Suc_1 mod_less mod_self)
    qed
    ultimately show ?thesis using fwd assms(5) by simp
  qed
  have bf: "moves [d', d] g = Inr g"
  proof -
    let ?g1 = "g\<lparr>pos := cell_at C ((k + ?N - 1) mod ?N)\<rparr>"
    have "move d ?g1 = Inr (?g1\<lparr>pos := cell_at C (Suc ((k + ?N - 1) mod ?N) mod ?N)\<rparr>)"
      using assms(1-3,6) N by (intro move_fwd_index) simp_all
    moreover have "Suc ((k + ?N - 1) mod ?N) mod ?N = k"
    proof (cases k)
      case 0
      then show ?thesis using N by (metis Suc_pred' add_0 mod_less lessI mod_self)
    next
      case (Suc k')
      then have "k + ?N - 1 = k' + ?N" by simp
      then show ?thesis using Suc assms(4) by simp
    qed
    ultimately show ?thesis using bwd assms(5) by simp
  qed
  show ?thesis by (intro conjI fwd bwd run cyc fb bf bij)
qed

text \<open>In the 2 by 2 grid of level 1, from the last cell (1, 1), whose index is 3.\<close>

theorem move_cyclic_witness:
  "length (grd sample_game) = 2 \<and> length (grd sample_game ! 0) = 2 \<and> (3::nat) < 2 * 2 \<and>
   pos sample_game = cell_at 2 3 \<and>
   move 1 sample_game = Inr (sample_game\<lparr>pos := (0, 0)\<rparr>) \<and>
   move (- 1) sample_game = Inr (sample_game\<lparr>pos := (1, 0)\<rparr>) \<and>
   moves (replicate 4 1) sample_game = Inr sample_game \<and>
   moves [1, - 1] sample_game = Inr sample_game \<and>
   moves [- 1, 1] sample_game = Inr sample_game"
proof -
  have h: "length (grd sample_game) = 2" "length (grd sample_game ! 0) = 2"
    "pos sample_game = cell_at 2 3"
    by (simp_all add: sample_game_fields cell_at_def)
  have c: "cell_at 2 (Suc 3 mod (2 * 2)) = (0, 0)" "cell_at 2 ((3 + 2 * 2 - 1) mod (2 * 2)) = (1, 0)"
    by (simp_all add: cell_at_def)
  have p: "(0::nat) < 2" "(3::nat) < 2 * 2" "(0::int) < 1" "(- 1::int) < 0" "(2::nat) * 2 dvd 4"
    by simp_all
  note mc = move_cyclic [of sample_game 2 2 3 1 "- 1" 4, OF h(1) h(2) p(1) p(2) h(3) p(3) p(4),
      unfolded c]
  have m: "move 1 sample_game = Inr (sample_game\<lparr>pos := (0, 0)\<rparr>)"
    "move (- 1) sample_game = Inr (sample_game\<lparr>pos := (1, 0)\<rparr>)"
    "moves (replicate 4 1) sample_game = Inr sample_game"
    "moves [1, - 1] sample_game = Inr sample_game"
    "moves [- 1, 1] sample_game = Inr sample_game"
    using mc p(5) by blast+
  show ?thesis by (intro conjI h m p(2))
qed

section \<open>Properties of digging\<close>

text \<open>
  Claim C9. Digging when the cell under the cursor is already revealed changes nothing:
  the whole game state after the call is the state before it, so score, health,
  treasures found, grid, revealed cells, cursor and both disarm flags are as they were,
  and no disarm is started.
\<close>

theorem dig_revealed_noop:
  "get2 (rev_f g) (fst (pos g)) (snd (pos g)) = Inr True \<Longrightarrow> dig t1 t2 g = Inr g"
  by (simp add: dig_def split_beta)

theorem dig_revealed_noop_witness:
  "get2 (rev_f sample_game) (fst (pos sample_game)) (snd (pos sample_game)) = Inr True \<and>
   dig 5 5 sample_game = Inr sample_game"
proof -
  have h: "get2 (rev_f sample_game) (fst (pos sample_game)) (snd (pos sample_game)) = Inr True"
    by (simp add: sample_game_fields get2_def py_get_def)
  show ?thesis using dig_revealed_noop [OF h, of 5 5] h by simp
qed

section \<open>Properties of level initialisation and of the level timeout\<close>

lemma ilvl_ok:
  assumes "cfg (df g) = Some c" "1 \<le> lv g" "lv g \<le> 9" "\<forall>i. rnd i \<le> i"
  shows "\<exists>g'. ilvl rnd now g = Inr g' \<and> hp g' = c_hp c \<and> tlm g' = c_t c \<and>
           st g' = st g \<and> lv g' = lv g \<and> df g' = df g \<and> sc g' = sc g \<and>
           \<not> bomb_disarm_active g' \<and> fnd g' = 0 \<and> pos g' = (0, 0) \<and> stm g' = now"
proof -
  from lvl_table [OF assms(2,3)] obtain r co tr bm nd where
    t: "lvl (lv g) = Some (r, co, tr, bm, nd)"
    and b: "0 \<le> r" "0 \<le> co" "0 \<le> tr" "0 \<le> bm" "tr + bm \<le> r * co"
    by blast
  from ilvl_grid_total [OF b assms(4)] obtain grid where
    "ilvl_grid rnd r co tr bm = Inr grid" by blast
  then show ?thesis using assms(1) t by (simp add: ilvl_def)
qed

lemma play_step_timeout_over:
  "\<not> bomb_disarm_active g \<Longrightarrow> tlm g \<le> py_int (i_now i - stm g) \<Longrightarrow> hp g - 1 \<le> 0 \<Longrightarrow>
     play_step i l g = Inr (Next, l, g\<lparr>hp := hp g - 1, st := OVER\<rparr>)"
  by (simp add: play_step_def Let_def max_def)

lemma play_step_timeout_regen:
  "\<not> bomb_disarm_active g \<Longrightarrow> tlm g \<le> py_int (i_now i - stm g) \<Longrightarrow> 0 < hp g - 1 \<Longrightarrow>
     play_step i l g =
       (case ilvl (i_rnd i) (i_ilvl_now i) (g\<lparr>hp := hp g - 1\<rparr>) of
          Inl e \<Rightarrow> Inl e
        | Inr g2 \<Rightarrow> Inr (Next, l\<lparr>p_ld := i_now i\<rparr>, g2))"
  by (simp add: play_step_def Let_def max_def)

lemma sample_game_session:
  "df sample_game = 0" "lv sample_game = 1" "hp sample_game = 6" "sc sample_game = 0"
  "st sample_game = PLAY" "stm sample_game = 0" "tlm sample_game = 60"
  "\<not> bomb_disarm_active sample_game" "lbt sample_game = 0" "ebl sample_game" "bl sample_game"
  "fch sample_game = 0" "enc sample_game = encoder_init True True 0 1 2"
  by (simp_all add: sample_game_def game_init_def)

lemma cfg_easy: "cfg 0 = Some \<lparr>c_n = ''EASY'', c_hp = 6, c_t = 60, c_h10 = 2, c_t10 = 30\<rparr>"
  by (simp add: cfg_def)

lemma quiet_inputs_fields:
  "i_now (quiet_inputs t) = t" "i_rnd (quiet_inputs t) = (\<lambda>i. i div 2)"
  "i_ilvl_now (quiet_inputs t) = t" "i_a (quiet_inputs t)" "i_b (quiet_inputs t)"
  "i_ebtn (quiet_inputs t)" "i_btn (quiet_inputs t)" "i_btn_now (quiet_inputs t) = t"
  "i_enc_ms (quiet_inputs t) = 1000 * t" "i_accel (quiet_inputs t) = Some (0, 0, 9.8)"
  "i_retry_now (quiet_inputs t) = t" "i_cor (quiet_inputs t) = 0"
  by (simp_all add: quiet_inputs_def)

text \<open>
  Claim C10. For each of the three difficulties, each of the levels 1 to 9 and all draws,
  level initialisation raises nothing and sets the health to the difficulty's starting
  health and the time limit to the difficulty's limit per level, whatever the health
  was before. This holds for \<open>ilvl\<close> itself, for the entry of \<open>play\<close> into a level, and
  for the regeneration of the level after a timeout that leaves health: the game goes on
  in the same state with the starting health, so the health lost before does not carry
  over.
\<close>

theorem level_init_resets_health:
  assumes "cfg (df g) = Some c" "1 \<le> lv g" "lv g \<le> 9" "\<forall>i. rnd i \<le> i"
  shows "(\<exists>g'. ilvl rnd now g = Inr g' \<and> hp g' = c_hp c \<and> tlm g' = c_t c) \<and>
         (\<exists>l g'. play_enter rnd now t g = Inr (l, g') \<and> hp g' = c_hp c \<and> tlm g' = c_t c) \<and>
         (\<not> bomb_disarm_active g \<and> tlm g \<le> py_int (i_now i - stm g) \<and> 1 < hp g \<and>
          i_rnd i = rnd \<longrightarrow>
            (\<exists>l' g'. play_step i l g = Inr (Next, l', g') \<and> st g' = st g \<and>
                      hp g' = c_hp c \<and> tlm g' = c_t c))"
proof (intro conjI impI)
  from ilvl_ok [OF assms, of now] obtain g' where
    g': "ilvl rnd now g = Inr g'" "hp g' = c_hp c" "tlm g' = c_t c" by blast
  then show "\<exists>g'. ilvl rnd now g = Inr g' \<and> hp g' = c_hp c \<and> tlm g' = c_t c" by blast
  from g' show "\<exists>l g'. play_enter rnd now t g = Inr (l, g') \<and> hp g' = c_hp c \<and> tlm g' = c_t c"
    by (simp add: play_enter_def)
next
  assume a: "\<not> bomb_disarm_active g \<and> tlm g \<le> py_int (i_now i - stm g) \<and> 1 < hp g \<and>
          i_rnd i = rnd"
  let ?g1 = "g\<lparr>hp := hp g - 1\<rparr>"
  have "cfg (df ?g1) = Some c" "1 \<le> lv ?g1" "lv ?g1 \<le> 9" using assms by simp_all
  from ilvl_ok [OF this assms(4), of "i_ilvl_now i"] obtain g' where
    g': "ilvl rnd (i_ilvl_now i) ?g1 = Inr g'" "hp g' = c_hp c" "tlm g' = c_t c" "st g' = st g"
    by auto
  have "play_step i l g = Inr (Next, l\<lparr>p_ld := i_now i\<rparr>, g')"
    using play_step_timeout_regen [of g i l] a g'(1) by simp
  then show "\<exists>l' g'. play_step i l g = Inr (Next, l', g') \<and> st g' = st g \<and>
                      hp g' = c_hp c \<and> tlm g' = c_t c"
    using g' by blast
qed

theorem level_init_resets_health_witness:
  "cfg (df (sample_game\<lparr>hp := 3\<rparr>)) = Some \<lparr>c_n = ''EASY'', c_hp = 6, c_t = 60, c_h10 = 2, c_t10 = 30\<rparr> \<and>
   lv (sample_game\<lparr>hp := 3\<rparr>) = 1 \<and> (\<forall>i::nat. i div 2 \<le> i) \<and>
   hp (sample_game\<lparr>hp := 3\<rparr>) = 3 \<and>
   tlm (sample_game\<lparr>hp := 3\<rparr>) \<le> py_int (i_now (quiet_inputs 60) - stm (sample_game\<lparr>hp := 3\<rparr>)) \<and>
   (\<exists>g'. ilvl (\<lambda>i. i div 2) 60 (sample_game\<lparr>hp := 3\<rparr>) = Inr g' \<and> hp g' = 6 \<and> tlm g' = 60) \<and>
   (\<exists>l g'. play_enter (\<lambda>i. i div 2) 60 61 (sample_game\<lparr>hp := 3\<rparr>) = Inr (l, g') \<and>
            hp g' = 6 \<and> tlm g' = 60) \<and>
   (\<exists>l' g'. play_step (quiet_inputs 60) \<lparr>p_ld = 0, p_le = 0, p_lw = - 1\<rparr> (sample_game\<lparr>hp := 3\<rparr>)
               = Inr (Next, l', g') \<and> st g' = PLAY \<and> hp g' = 6 \<and> tlm g' = 60)"
proof -
  let ?g = "sample_game\<lparr>hp := 3\<rparr>"
  let ?c = "\<lparr>c_n = ''EASY'', c_hp = 6, c_t = 60, c_h10 = 2, c_t10 = 30\<rparr>"
  have h: "cfg (df ?g) = Some ?c" "1 \<le> lv ?g" "lv ?g \<le> 9" "\<forall>i::nat. i div 2 \<le> i"
    by (simp_all add: sample_game_session cfg_easy)
  have k: "\<not> bomb_disarm_active ?g" "tlm ?g \<le> py_int (i_now (quiet_inputs 60) - stm ?g)"
    "1 < hp ?g" "i_rnd (quiet_inputs 60) = (\<lambda>i. i div 2)"
    by (simp_all add: sample_game_session quiet_inputs_fields py_int_def)
  show ?thesis
    using level_init_resets_health [OF h, of 60 61 "quiet_inputs 60" "\<lparr>p_ld = 0, p_le = 0, p_lw = - 1\<rparr>"]
      h k
    by (simp add: sample_game_session)
qed

text \<open>
  Claim C1, evaluated on the code. In PLAY with no disarm active and the time used up,
  at health 1 the health becomes 0 and the state OVER, the level untouched. At health 3
  on the easy difficulty the health is decremented, the level is regenerated and play
  continues, but the regeneration runs \<open>ilvl\<close>, which sets the health to the starting
  health: play continues with health 6, not with 2.
\<close>

theorem play_timeout_restores_health:
  "hp (sample_game\<lparr>hp := 3\<rparr>) = 3 \<and>
   \<not> bomb_disarm_active (sample_game\<lparr>hp := 3\<rparr>) \<and>
   max 0 (tlm (sample_game\<lparr>hp := 3\<rparr>) - py_int (60 - stm (sample_game\<lparr>hp := 3\<rparr>))) = 0 \<and>
   (\<exists>l' g'. play_step (quiet_inputs 60) \<lparr>p_ld = 0, p_le = 0, p_lw = - 1\<rparr> (sample_game\<lparr>hp := 3\<rparr>)
               = Inr (Next, l', g') \<and> st g' = PLAY \<and> hp g' = 6) \<and>
   play_step (quiet_inputs 60) \<lparr>p_ld = 0, p_le = 0, p_lw = - 1\<rparr> (sample_game\<lparr>hp := 1\<rparr>)
     = Inr (Next, \<lparr>p_ld = 0, p_le = 0, p_lw = - 1\<rparr>, sample_game\<lparr>hp := 0, st := OVER\<rparr>)"
proof -
  let ?g = "sample_game\<lparr>hp := 3\<rparr>"
  let ?g1 = "?g\<lparr>hp := hp ?g - 1\<rparr>"
  let ?d = "sample_game\<lparr>hp := 1\<rparr>"
  have o: "\<not> bomb_disarm_active ?d" "tlm ?d \<le> py_int (i_now (quiet_inputs 60) - stm ?d)"
    "hp ?d - 1 \<le> 0"
    by (simp_all add: sample_game_session quiet_inputs_fields py_int_def)
  have over: "play_step (quiet_inputs 60) \<lparr>p_ld = 0, p_le = 0, p_lw = - 1\<rparr> ?d
     = Inr (Next, \<lparr>p_ld = 0, p_le = 0, p_lw = - 1\<rparr>, sample_game\<lparr>hp := 0, st := OVER\<rparr>)"
    using play_step_timeout_over [OF o, of "\<lparr>p_ld = 0, p_le = 0, p_lw = - 1\<rparr>"] by simp
  let ?c = "\<lparr>c_n = ''EASY'', c_hp = 6, c_t = 60, c_h10 = 2, c_t10 = 30\<rparr>"
  have h: "cfg (df ?g1) = Some ?c" "1 \<le> lv ?g1" "lv ?g1 \<le> 9" "\<forall>i::nat. i div 2 \<le> i"
    by (simp_all add: sample_game_session cfg_easy)
  from ilvl_ok [OF h, of 60] obtain g' where
    g': "ilvl (\<lambda>i. i div 2) 60 ?g1 = Inr g'" "hp g' = 6" "st g' = PLAY"
    by (auto simp: sample_game_session)
  have k: "\<not> bomb_disarm_active ?g" "tlm ?g \<le> py_int (i_now (quiet_inputs 60) - stm ?g)"
    "0 < hp ?g - 1"
    by (simp_all add: sample_game_session quiet_inputs_fields py_int_def)
  have "play_step (quiet_inputs 60) \<lparr>p_ld = 0, p_le = 0, p_lw = - 1\<rparr> ?g
          = Inr (Next, \<lparr>p_ld = 0, p_le = 0, p_lw = - 1\<rparr>\<lparr>p_ld := 60\<rparr>, g')"
    using play_step_timeout_regen [OF k, of "\<lparr>p_ld = 0, p_le = 0, p_lw = - 1\<rparr>"] g'(1)
    by (simp add: quiet_inputs_fields)
  then show ?thesis using g' over by (simp add: sample_game_session py_int_def)
qed

section \<open>Properties of the disarm sub-state\<close>

lemma check_shake_sq:
  "check_shake (Some (x, y, z)) \<longleftrightarrow> (9.8 + shake_threshold)\<^sup>2 < x\<^sup>2 + y\<^sup>2 + z\<^sup>2"
proof -
  have c: "0 \<le> 9.8 + shake_threshold" by (simp add: shake_threshold_def)
  have "9.8 + shake_threshold = sqrt ((9.8 + shake_threshold)\<^sup>2)" using c by simp
  then have "9.8 + shake_threshold < sqrt (x\<^sup>2 + y\<^sup>2 + z\<^sup>2)
     \<longleftrightarrow> sqrt ((9.8 + shake_threshold)\<^sup>2) < sqrt (x\<^sup>2 + y\<^sup>2 + z\<^sup>2)" by simp
  then show ?thesis by (simp only: check_shake_def option.case prod.case real_sqrt_less_iff)
qed

lemma check_shake_hard: "check_shake (Some (0, 0, 20))"
  by (simp add: check_shake_sq shake_threshold_def power2_eq_square)

lemma check_shake_rest:
  "\<not> check_shake (Some (0, 0, 9.8))" "\<not> check_shake (Some (0, 0, 49 / 5))"
  by (simp_all add: check_shake_sq shake_threshold_def power2_eq_square)

lemma disarm_game_fields:
  "bomb_disarm_active disarm_game" "shake_start_time disarm_game = 10"
  "last_tick_time disarm_game = 10" "hp disarm_game = 6" "sc disarm_game = 0"
  "st disarm_game = PLAY"
  by (simp_all add: disarm_game_def sample_game_session)

text \<open>
  Claim C2, as stated, fails. With a disarm started at 10, an iteration at 13 (the 3
  seconds of the disarm are over) in which the device is shaken hard resolves to
  failure: the disarm ends, health goes from 6 to 5 and the score is unchanged.
\<close>

theorem disarm_shake_at_timeout_counterexample:
  "bomb_disarm_active disarm_game \<and>
   check_shake (i_accel ((quiet_inputs 13)\<lparr>i_accel := Some (0, 0, 20)\<rparr>)) \<and>
   shake_duration \<le> i_now ((quiet_inputs 13)\<lparr>i_accel := Some (0, 0, 20)\<rparr>) - shake_start_time disarm_game \<and>
   play_step ((quiet_inputs 13)\<lparr>i_accel := Some (0, 0, 20)\<rparr>) \<lparr>p_ld = 0, p_le = 0, p_lw = - 1\<rparr> disarm_game
     = Inr (Next, \<lparr>p_ld = 13, p_le = 0, p_lw = - 1\<rparr>,
            disarm_game\<lparr>last_tick_time := 13, bomb_disarm_active := False, hp := 5\<rparr>) \<and>
   hp disarm_game = 6 \<and> sc (disarm_game\<lparr>last_tick_time := 13, bomb_disarm_active := False, hp := 5\<rparr>) = sc disarm_game"
  by (simp add: play_step_def Let_def disarm_game_fields quiet_inputs_fields check_shake_hard
      shake_duration_def)

text \<open>
  Claim C2, amended. While the disarm is active, every iteration first compares the
  time since the start of the disarm with the disarm duration. If the duration has been
  reached the disarm resolves to failure, shaken or not: it is deactivated, one health
  is lost, no bonus is given, and the state becomes OVER when the health is then at most
  0. Only otherwise is the motion sampled: when the magnitude exceeds the gravity
  baseline by more than the shake threshold the disarm resolves to success (deactivated,
  100 points, no health lost), and when it does not the disarm stays active.
\<close>

theorem disarm_timeout_first:
  assumes "bomb_disarm_active g"
  shows "(shake_duration \<le> i_now i - shake_start_time g \<longrightarrow>
           (\<exists>l' g'. play_step i l g = Inr (Next, l', g') \<and> \<not> bomb_disarm_active g' \<and>
              hp g' = hp g - 1 \<and> sc g' = sc g \<and>
              st g' = (if hp g - 1 \<le> 0 then OVER else st g))) \<and>
         (i_now i - shake_start_time g < shake_duration \<and> check_shake (i_accel i) \<longrightarrow>
           (\<exists>l' g'. play_step i l g = Inr (Next, l', g') \<and> \<not> bomb_disarm_active g' \<and>
              hp g' = hp g \<and> sc g' = sc g + 100 \<and> st g' = st g)) \<and>
         (i_now i - shake_start_time g < shake_duration \<and> \<not> check_shake (i_accel i) \<longrightarrow>
           (\<exists>l' g'. play_step i l g = Inr (Next, l', g') \<and> bomb_disarm_active g' \<and>
              hp g' = hp g \<and> sc g' = sc g \<and> st g' = st g))"
  using assms by (simp add: play_step_def Let_def)

theorem disarm_timeout_first_witness:
  "bomb_disarm_active disarm_game \<and>
   shake_duration \<le> i_now ((quiet_inputs 13)\<lparr>i_accel := Some (0, 0, 20)\<rparr>) - shake_start_time disarm_game \<and>
   (\<exists>l' g'. play_step ((quiet_inputs 13)\<lparr>i_accel := Some (0, 0, 20)\<rparr>)
                \<lparr>p_ld = 0, p_le = 0, p_lw = - 1\<rparr> disarm_game = Inr (Next, l', g') \<and>
             \<not> bomb_disarm_active g' \<and> hp g' = 5 \<and> sc g' = 0 \<and> st g' = PLAY) \<and>
   i_now ((quiet_inputs 12)\<lparr>i_accel := Some (0, 0, 20)\<rparr>) - shake_start_time disarm_game < shake_duration \<and>
   check_shake (i_accel ((quiet_inputs 12)\<lparr>i_accel := Some (0, 0, 20)\<rparr>)) \<and>
   (\<exists>l' g'. play_step ((quiet_inputs 12)\<lparr>i_accel := Some (0, 0, 20)\<rparr>)
                \<lparr>p_ld = 0, p_le = 0, p_lw = - 1\<rparr> disarm_game = Inr (Next, l', g') \<and>
             \<not> bomb_disarm_active g' \<and> hp g' = 6 \<and> sc g' = 100 \<and> st g' = PLAY) \<and>
   \<not> check_shake (i_accel (quiet_inputs 12)) \<and>
   (\<exists>l' g'. play_step (quiet_inputs 12) \<lparr>p_ld = 0, p_le = 0, p_lw = - 1\<rparr> disarm_game
                = Inr (Next, l', g') \<and>
             bomb_disarm_active g' \<and> hp g' = 6 \<and> sc g' = 0 \<and> st g' = PLAY)"
  using disarm_timeout_first [OF disarm_game_fields(1),
      of "(quiet_inputs 13)\<lparr>i_accel := Some (0, 0, 20)\<rparr>" "\<lparr>p_ld = 0, p_le = 0, p_lw = - 1\<rparr>"]
    disarm_timeout_first [OF disarm_game_fields(1),
      of "(quiet_inputs 12)\<lparr>i_accel := Some (0, 0, 20)\<rparr>" "\<lparr>p_ld = 0, p_le = 0, p_lw = - 1\<rparr>"]
    disarm_timeout_first [OF disarm_game_fields(1),
      of "quiet_inputs 12" "\<lparr>p_ld = 0, p_le = 0, p_lw = - 1\<rparr>"]
  by (simp add: disarm_game_fields quiet_inputs_fields check_shake_hard check_shake_rest
      shake_duration_def)

section \<open>Properties of the final level\<close>

lemma renc_frame:
  "lbt (snd (renc a b t g)) = lbt g" "ebl (snd (renc a b t g)) = ebl g"
  "bl (snd (renc a b t g)) = bl g" "fch (snd (renc a b t g)) = fch g"
  "fhp (snd (renc a b t g)) = fhp g" "sc (snd (renc a b t g)) = sc g"
  "st (snd (renc a b t g)) = st g" "stm (snd (renc a b t g)) = stm g"
  by (simp_all add: renc_def Let_def split_beta)

text \<open>
  Claim C8. In state LV10, in an iteration whose countdown has not reached 0 and whose
  poll accepts a confirm press, the choice (after the toggle of this iteration, if the
  dial was turned) is compared with the correct answer. A correct choice adds 500 to
  the score and the state becomes WIN. A wrong choice takes one final-level health; when
  that leaves none the state becomes OVER; otherwise the loop goes on in LV10 with a
  newly drawn correct answer and the countdown restarted: the start time is the clock
  reading of the new attempt, so the remaining time there is the full time limit.
\<close>

theorem lv10_confirm:
  assumes "st g = LV10" "lv10_remaining (i_now i) l g \<noteq> 0"
    "0.2 \<le> i_btn_now i - lbt g" "(ebl g \<and> \<not> i_ebtn i) \<or> (bl g \<and> \<not> i_btn i)"
    "choice = (if fst (renc (i_a i) (i_b i) (i_enc_ms i) g) \<noteq> 0 \<and> 0.15 < i_now i - f_le l
               then 1 - fch g else fch g)"
    "lv10_step i l g = (c, l', g')"
  shows "(choice = f_cor l \<longrightarrow>
            c = Break \<and> st g' = WIN \<and> sc g' = sc g + 500 \<and> fhp g' = fhp g) \<and>
         (choice \<noteq> f_cor l \<and> fhp g - 1 \<le> 0 \<longrightarrow>
            c = Break \<and> st g' = OVER \<and> fhp g' = fhp g - 1 \<and> sc g' = sc g) \<and>
         (choice \<noteq> f_cor l \<and> 0 < fhp g - 1 \<longrightarrow>
            c = Next \<and> st g' = LV10 \<and> fhp g' = fhp g - 1 \<and> sc g' = sc g \<and>
            f_cor l' = i_cor i \<and> f_tl l' = f_tl l \<and> stm g' = i_retry_now i \<and>
            lv10_remaining (i_retry_now i) l' g' = max 0 (f_tl l))"
proof -
  obtain d g1 where r: "renc (i_a i) (i_b i) (i_enc_ms i) g = (d, g1)"
    by (cases "renc (i_a i) (i_b i) (i_enc_ms i) g")
  have fr: "lbt g1 = lbt g" "ebl g1 = ebl g" "bl g1 = bl g" "fch g1 = fch g" "fhp g1 = fhp g"
    "sc g1 = sc g" "st g1 = st g"
    using renc_frame [of "i_a i" "i_b i" "i_enc_ms i" g] r by simp_all
  have rm: "max 0 (f_tl l - py_int (i_now i - stm g)) \<noteq> 0"
    using assms(2) by (simp add: lv10_remaining_def)
  have z: "py_int 0 = 0" by (simp add: py_int_def)
  show ?thesis
  proof (cases "d \<noteq> 0 \<and> 0.15 < i_now i - f_le l")
    case True
    let ?g2 = "g1\<lparr>fch := 1 - fch g\<rparr>"
    have cb: "cbtn (i_btn_now i) (i_ebtn i) (i_btn i) ?g2
                = (True, ?g2\<lparr>ebl := i_ebtn i, bl := i_btn i, lbt := i_btn_now i\<rparr>)"
      using assms(3,4) fr by (intro cbtn_press) simp_all
    have ch: "choice = 1 - fch g" using assms(5) True r by auto
    have "lv10_step i l g = (c, l', g')" by (rule assms(6))
    then show ?thesis
      using True rm
      by (auto simp: lv10_step_def Let_def r cb fr ch assms(1) lv10_remaining_def z
          split: if_splits)
  next
    case False
    have cb: "cbtn (i_btn_now i) (i_ebtn i) (i_btn i) g1
                = (True, g1\<lparr>ebl := i_ebtn i, bl := i_btn i, lbt := i_btn_now i\<rparr>)"
      using assms(3,4) fr by (intro cbtn_press) simp_all
    have ch: "choice = fch g" using assms(5) False r by auto
    have "lv10_step i l g = (c, l', g')" by (rule assms(6))
    then show ?thesis
      using False rm
      by (auto simp: lv10_step_def Let_def r cb fr ch assms(1) lv10_remaining_def z
          split: if_splits)
  qed
qed

lemma final_game_fields:
  "st final_game = LV10" "fhp final_game = 2" "fch final_game = 0" "stm final_game = 100"
  "lbt final_game = 0" "ebl final_game" "bl final_game" "sc final_game = 0"
  "enc final_game = encoder_init True True 0 1 2"
  by (simp_all add: final_game_def sample_game_session)

lemma final_inputs_fields:
  "i_now final_inputs = 105" "i_btn_now final_inputs = 105" "i_ebtn final_inputs"
  "\<not> i_btn final_inputs" "i_a final_inputs" "i_b final_inputs" "i_enc_ms final_inputs = 105000"
  "i_retry_now final_inputs = 108" "i_cor final_inputs = 0"
  by (simp_all add: final_inputs_def quiet_inputs_fields)

lemma final_renc:
  "fst (renc (i_a final_inputs) (i_b final_inputs) (i_enc_ms final_inputs) final_game) = 0"
  by (simp add: renc_def update_def get_delta_def final_inputs_fields final_game_fields
      encoder_init_def Let_def)

theorem lv10_confirm_witness:
  "st final_game = LV10 \<and> lv10_remaining (i_now final_inputs) final_locals final_game = 25 \<and>
   (0.2::real) \<le> i_btn_now final_inputs - lbt final_game \<and>
   bl final_game \<and> \<not> i_btn final_inputs \<and>
   fch final_game \<noteq> f_cor final_locals \<and> fhp final_game = 2 \<and>
   fst (lv10_step final_inputs final_locals final_game) = Next \<and>
   st (snd (snd (lv10_step final_inputs final_locals final_game))) = LV10 \<and>
   fhp (snd (snd (lv10_step final_inputs final_locals final_game))) = 1 \<and>
   f_cor (fst (snd (lv10_step final_inputs final_locals final_game))) = 0 \<and>
   stm (snd (snd (lv10_step final_inputs final_locals final_game))) = 108 \<and>
   lv10_remaining 108 (fst (snd (lv10_step final_inputs final_locals final_game)))
     (snd (snd (lv10_step final_inputs final_locals final_game))) = 30"
proof -
  have h: "st final_game = LV10" "lv10_remaining (i_now final_inputs) final_locals final_game \<noteq> 0"
    "0.2 \<le> i_btn_now final_inputs - lbt final_game"
    "(ebl final_game \<and> \<not> i_ebtn final_inputs) \<or> (bl final_game \<and> \<not> i_btn final_inputs)"
    by (simp_all add: final_game_fields final_inputs_fields lv10_remaining_def final_locals_def
        py_int_def)
  have r: "lv10_remaining (i_now final_inputs) final_locals final_game = 25"
    by (simp add: final_game_fields final_inputs_fields lv10_remaining_def final_locals_def
        py_int_def)
  have c: "lv10_step final_inputs final_locals final_game
            = (fst (lv10_step final_inputs final_locals final_game),
               fst (snd (lv10_step final_inputs final_locals final_game)),
               snd (snd (lv10_step final_inputs final_locals final_game)))"
    by simp
  let ?s = "lv10_step final_inputs final_locals final_game"
  have ne: "(if fst (renc (i_a final_inputs) (i_b final_inputs) (i_enc_ms final_inputs) final_game) \<noteq> 0
               \<and> 0.15 < i_now final_inputs - f_le final_locals
             then 1 - fch final_game else fch final_game) \<noteq> f_cor final_locals
            \<and> 0 < fhp final_game - 1"
    by (simp add: final_renc final_game_fields final_locals_def)
  from lv10_confirm [OF h refl c] ne
  have k: "fst ?s = Next" "st (snd (snd ?s)) = LV10" "fhp (snd (snd ?s)) = fhp final_game - 1"
    "f_cor (fst (snd ?s)) = i_cor final_inputs" "stm (snd (snd ?s)) = i_retry_now final_inputs"
    "lv10_remaining (i_retry_now final_inputs) (fst (snd ?s)) (snd (snd ?s))
       = max 0 (f_tl final_locals)"
    by blast+
  have f: "f_tl final_locals = 30" "f_cor final_locals = 1" by (simp_all add: final_locals_def)
  show ?thesis
    using k r h(3) by (simp add: final_game_fields final_inputs_fields f)
qed

end
